theory Spec2Isabelle
  imports Complex_Main
begin

section \<open>The repository lister of \<^verbatim>\<open>src/index.js\<close>\<close>

text \<open>
  The program lists the repositories of a GitHub account, looks up the last commit of each
  one with a bounded number of lookups in flight, and writes a CSV file. The class
  \<^verbatim>\<open>GitHubRepoLister\<close> is embedded method by method. What the JavaScript does beyond
  computing a value is made explicit:
  \<^item> the remote service (\<^verbatim>\<open>this.octokit\<close>) and the CSV writer are a record of functions
    that answer a request with an error or a value;
  \<^item> an exception or a rejected promise is the left side of a sum, \<open>Inl e\<close>;
  \<^item> console output and remote requests are a list of effects, in the order they happen;
  \<^item> the loop of \<^verbatim>\<open>processConcurrently\<close> may run forever, so it returns an option and
    \<open>None\<close> is "never returns";
  \<^item> JavaScript numbers are integers here (\<open>int\<close>): the one caller passes the constant 10,
    and the claims speak of integral limits. Strings are ASCII.

  The constructor and \<^verbatim>\<open>initializeClient\<close> (reading the token) are not embedded: the
  client they build is the record of collaborators that every function below takes.
\<close>

subsection \<open>Data\<close>

text \<open>An \<^verbatim>\<open>Error\<close> object as the code reads it: \<^verbatim>\<open>error.message\<close> and \<^verbatim>\<open>error.status\<close>
  (absent on a network failure).\<close>

record js_error =
  message :: string
  status :: "int option"

text \<open>\<^verbatim>\<open>authenticatedUser.data\<close>, \<^verbatim>\<open>repoInfo.data\<close> and an element of \<^verbatim>\<open>commits.data\<close>,
  each with the one field the code reads (\<^verbatim>\<open>commit.committer.date\<close> for the last).\<close>

record user =
  login :: string

record repo_detail =
  default_branch :: string

record commit =
  committer_date :: string

text \<open>A repository of the listing, with the fields \<^verbatim>\<open>processRepo\<close> reads. \<open>None\<close> is
  \<^verbatim>\<open>null\<close> or absent. \<open>is_private\<close> is \<^verbatim>\<open>repo.private\<close>, \<open>size_kb\<close> is \<^verbatim>\<open>repo.size\<close>,
  \<open>owner_login\<close> is \<^verbatim>\<open>repo.owner.login\<close> and \<open>parent_full_name\<close> is
  \<^verbatim>\<open>repo.parent.full_name\<close>, \<open>None\<close> when \<^verbatim>\<open>repo.parent\<close> is absent.\<close>

record repository =
  name :: string
  full_name :: string
  owner_login :: string
  is_private :: bool
  archived :: bool
  fork :: bool
  parent_full_name :: "string option"
  description :: "string option"
  html_url :: string
  stargazers_count :: nat
  forks_count :: nat
  language :: "string option"
  created_at :: string
  updated_at :: string
  size_kb :: nat

text \<open>The value of \<^verbatim>\<open>getRepoCommitInfo\<close>.\<close>

record commit_info =
  commitCount :: int
  lastCommitDate :: "string option"

text \<open>The object \<^verbatim>\<open>repoData\<close> built by \<^verbatim>\<open>processRepo\<close>; its fields carry the prefix
  \<open>rd_\<close> because several share a name with the fields above.\<close>

record repoData =
  rd_name :: string
  rd_fullName :: string
  rd_private :: bool
  rd_archived :: bool
  rd_fork :: bool
  rd_forkedFrom :: string
  rd_description :: string
  rd_url :: string
  rd_stars :: nat
  rd_forks :: nat
  rd_language :: string
  rd_createdAt :: string
  rd_updatedAt :: string
  rd_commitCount :: int
  rd_lastCommitDate :: "string option"
  rd_size :: nat

text \<open>The requests the code sends, with their parameters.\<close>

datatype api_call =
    GetAuthenticated
  | PaginateListForAuthenticatedUser string string string nat
  | PaginateListForUser string string nat
  | ReposGet string string
  | ListCommits string string string nat
  | PaginateListCommits string string string nat

text \<open>What the program does to the outside, in order: a console line (the arguments of
  \<^verbatim>\<open>console.log\<close>, \<^verbatim>\<open>console.warn\<close> or \<^verbatim>\<open>console.error\<close>), a request, a CSV file
  written.\<close>

datatype effect =
    Log "string list"
  | Warn "string list"
  | Error "string list"
  | Request api_call
  | WriteCsv string "repoData list"

text \<open>The collaborators: each request answers with an error or a value.\<close>

record octokit =
  users_getAuthenticated :: "js_error + user"
  paginate_listForAuthenticatedUser ::
    "string \<Rightarrow> string \<Rightarrow> string \<Rightarrow> nat \<Rightarrow> js_error + repository list"
  paginate_listForUser :: "string \<Rightarrow> string \<Rightarrow> nat \<Rightarrow> js_error + repository list"
  repos_get :: "string \<Rightarrow> string \<Rightarrow> js_error + repo_detail"
  repos_listCommits :: "string \<Rightarrow> string \<Rightarrow> string \<Rightarrow> nat \<Rightarrow> js_error + commit list"
  paginate_listCommits :: "string \<Rightarrow> string \<Rightarrow> string \<Rightarrow> nat \<Rightarrow> js_error + commit list"
  writeRecords :: "string \<Rightarrow> repoData list \<Rightarrow> js_error + unit"

subsection \<open>Constants and library functions\<close>

definition FETCH_COMMIT_COUNT :: bool where
  "FETCH_COMMIT_COUNT = False"

definition CONCURRENCY_LIMIT :: int where
  "CONCURRENCY_LIMIT = 10"

text \<open>\<^verbatim>\<open>Array.prototype.slice(start, end)\<close>, also \<^verbatim>\<open>String.prototype.slice\<close>: a negative
  index counts from the end, both are clamped to the array, and an empty range gives the
  empty array.\<close>

definition slice :: "'a list \<Rightarrow> int \<Rightarrow> int \<Rightarrow> 'a list" where
  "slice xs start end =
     (let len = int (length xs);
          k = (if start < 0 then max (len + start) 0 else min start len);
          final = (if end < 0 then max (len + end) 0 else min end len)
      in take (nat (final - k)) (drop (nat k) xs))"

text \<open>\<^verbatim>\<open>toLowerCase\<close> on ASCII.\<close>

definition lower_char :: "char \<Rightarrow> char" where
  "lower_char c =
     (let n = (of_char c :: nat) in if 65 \<le> n \<and> n \<le> 90 then char_of (n + 32) else c)"

definition toLowerCase :: "string \<Rightarrow> string" where
  "toLowerCase s = map lower_char s"

text \<open>A number inside a template literal.\<close>

fun show_nat :: "nat \<Rightarrow> string" where
  "show_nat n =
     (if n < 10 then [char_of (48 + n)] else show_nat (n div 10) @ [char_of (48 + n mod 10)])"

declare show_nat.simps [simp del]

definition show_int :: "int \<Rightarrow> string" where
  "show_int k = (if k < 0 then CHR ''-'' # show_nat (nat (- k)) else show_nat (nat k))"

text \<open>\<^verbatim>\<open>.replace(/[:.]/g, '-')\<close>.\<close>

definition replace_colons_dots :: "string \<Rightarrow> string" where
  "replace_colons_dots s = map (\<lambda>c. if c = CHR '':'' \<or> c = CHR ''.'' then CHR ''-'' else c) s"

text \<open>A JavaScript string is falsy when it is absent or empty.\<close>

fun falsy :: "string option \<Rightarrow> bool" where
  "falsy None = True"
| "falsy (Some s) = (s = [])"

subsection \<open>\<^verbatim>\<open>getUserRepos\<close>\<close>

text \<open>The \<^verbatim>\<open>catch\<close> block of \<^verbatim>\<open>getUserRepos\<close>: the message, a hint for the statuses 404
  and 401, and the error thrown again.\<close>

definition getUserRepos_catch ::
  "effect list \<Rightarrow> js_error \<Rightarrow> effect list \<times> (js_error + repository list)" where
  "getUserRepos_catch fx e =
     (fx @ [Error [''Error fetching repositories:'', message e]]
         @ (if status e = Some 404
            then [Error [''User not found or you don't have access to their repositories'']]
            else if status e = Some 401
            then [Error [''Invalid GitHub token or insufficient permissions'']]
            else []),
      Inl e)"

definition getUserRepos ::
  "octokit \<Rightarrow> string \<Rightarrow> effect list \<times> (js_error + repository list)" where
  "getUserRepos octo username =
     (let fx0 = [Log [''Fetching repositories for user: '' @ username], Request GetAuthenticated]
      in case users_getAuthenticated octo of
           Inl e \<Rightarrow> getUserRepos_catch fx0 e
         | Inr authenticatedUser \<Rightarrow>
             (let isOwnRepos = (toLowerCase (login authenticatedUser) = toLowerCase username)
              in if isOwnRepos then
                   (let fx1 = fx0 @
                          [Log [''Fetching your own repositories (including private ones)...''],
                           Request (PaginateListForAuthenticatedUser
                                      ''all'' ''owner'' ''updated'' 100)]
                    in case paginate_listForAuthenticatedUser octo
                              ''all'' ''owner'' ''updated'' 100 of
                         Inl e \<Rightarrow> getUserRepos_catch fx1 e
                       | Inr repos \<Rightarrow>
                           (fx1 @ [Log [''Found '' @ show_nat (length repos) @ '' repositories'']],
                            Inr repos))
                 else
                   (let fx1 = fx0 @
                          [Log [''Fetching repositories for another user (public only)...''],
                           Request (PaginateListForUser username ''all'' 100)]
                    in case paginate_listForUser octo username ''all'' 100 of
                         Inl e \<Rightarrow> getUserRepos_catch fx1 e
                       | Inr repos \<Rightarrow>
                           (fx1 @ [Log [''Found '' @ show_nat (length repos) @ '' repositories'']],
                            Inr repos))))"

subsection \<open>\<^verbatim>\<open>getRepoCommitInfo\<close>\<close>

text \<open>The \<^verbatim>\<open>catch\<close> block: a warning and the zero record.\<close>

definition getRepoCommitInfo_catch ::
  "effect list \<Rightarrow> string \<Rightarrow> string \<Rightarrow> js_error \<Rightarrow> effect list \<times> commit_info" where
  "getRepoCommitInfo_catch fx owner repo e =
     (fx @ [Warn [''Could not fetch commit info for '' @ owner @ ''/'' @ repo @ '':'', message e]],
      \<lparr>commitCount = 0, lastCommitDate = None\<rparr>)"

text \<open>The body of \<^verbatim>\<open>getRepoCommitInfo\<close> with the module constant \<^verbatim>\<open>FETCH_COMMIT_COUNT\<close>
  as the parameter \<open>flag\<close>; the method itself is the instance at the constant.\<close>

definition getRepoCommitInfo_flag ::
  "bool \<Rightarrow> octokit \<Rightarrow> string \<Rightarrow> string \<Rightarrow> effect list \<times> commit_info" where
  "getRepoCommitInfo_flag flag octo owner repo =
     (let fx0 = [Request (ReposGet owner repo)]
      in case repos_get octo owner repo of
           Inl e \<Rightarrow> getRepoCommitInfo_catch fx0 owner repo e
         | Inr repoInfo \<Rightarrow>
             (let defaultBranch = default_branch repoInfo;
                  fx1 = fx0 @ [Request (ListCommits owner repo defaultBranch 1)]
              in case repos_listCommits octo owner repo defaultBranch 1 of
                   Inl e \<Rightarrow> getRepoCommitInfo_catch fx1 owner repo e
                 | Inr commits \<Rightarrow>
                     (let fx2 = fx1 @ (if flag
                                       then [Request (PaginateListCommits owner repo defaultBranch 100)]
                                       else [])
                      in case (if flag then paginate_listCommits octo owner repo defaultBranch 100
                               else Inr []) of
                           Inl e \<Rightarrow> getRepoCommitInfo_catch fx2 owner repo e
                         | Inr allCommits \<Rightarrow>
                             (fx2,
                              \<lparr>commitCount = (if flag then int (length allCommits) else - 1),
                               lastCommitDate =
                                 (case commits of [] \<Rightarrow> None
                                  | c # _ \<Rightarrow> Some (committer_date c))\<rparr>))))"

definition getRepoCommitInfo :: "octokit \<Rightarrow> string \<Rightarrow> string \<Rightarrow> effect list \<times> commit_info" where
  "getRepoCommitInfo = getRepoCommitInfo_flag FETCH_COMMIT_COUNT"

subsection \<open>\<^verbatim>\<open>processConcurrently\<close>\<close>

text \<open>
  What a run of \<^verbatim>\<open>processConcurrently\<close> does, in order: \<open>Chunk batch\<close> when the loop body
  takes \<^verbatim>\<open>batch = items.slice(i, i + concurrency)\<close>; \<open>Invoke k\<close> when the callback of
  \<^verbatim>\<open>batch.map\<close> prints the progress line of the global index \<open>k\<close> and calls
  \<^verbatim>\<open>processor(item, k)\<close> (the callback has no \<^verbatim>\<open>await\<close> before the call, so all calls of a
  batch are made inside \<^verbatim>\<open>map\<close>, in array order); \<open>Settled k\<close> when the promise of that
  call settles.
\<close>

datatype 'a event = Chunk "'a list" | Invoke int | Settled int

text \<open>
  \<^verbatim>\<open>await Promise.all(batchPromises)\<close>. The promises, each paired with its global index,
  settle in the order of the list given. The value is the indices that settled while the
  function waited, and the rejection if there was one: the first rejection rejects the whole
  at once (\<open>Some e\<close>, and the function stops waiting); when all have fulfilled the await
  returns.
\<close>

fun settle :: "(int \<times> ('e + 'b)) list \<Rightarrow> int list \<times> 'e option" where
  "settle [] = ([], None)"
| "settle ((k, out) # ps) =
     (case out of
        Inl e \<Rightarrow> ([k], Some e)
      | Inr v \<Rightarrow> (let (ks, r) = settle ps in (k # ks, r)))"

text \<open>
  The loop \<^verbatim>\<open>for (let i = 0; i < items.length; i += concurrency)\<close>, with its state \<open>i\<close>,
  \<open>results\<close> and the events so far. The outcome of a call of \<open>processor\<close> is the outcome of
  its promise: \<open>Inl e\<close> rejected, \<open>Inr v\<close> fulfilled. Which promise settles first is not
  decided by the program: \<open>delay k\<close> is the time the call of global index \<open>k\<close> takes, and the
  promises of a batch settle by increasing delay. The values of a fulfilled batch are pushed
  in array order, as \<^verbatim>\<open>Promise.all\<close> returns them.
\<close>

partial_function (option) processConcurrently_loop ::
  "(int \<Rightarrow> nat) \<Rightarrow> 'a list \<Rightarrow> ('a \<Rightarrow> int \<Rightarrow> 'e + 'b) \<Rightarrow> int \<Rightarrow> int \<Rightarrow> 'b list \<Rightarrow> 'a event list
     \<Rightarrow> ('a event list \<times> ('e + 'b list)) option" where
  "processConcurrently_loop delay items processor concurrency i results trace =
     (if i < int (length items) then
        (let batch = slice items i (i + concurrency);
             globalIndex = map (\<lambda>index. i + int index) [0..<length batch];
             batchPromises = zip globalIndex (map2 processor batch globalIndex);
             (settled, rejected) = settle (sort_key (\<lambda>p. delay (fst p)) batchPromises);
             trace' = trace @ [Chunk batch] @ map Invoke globalIndex @ map Settled settled
         in case rejected of
              Some e \<Rightarrow> Some (trace', Inl e)
            | None \<Rightarrow>
                processConcurrently_loop delay items processor concurrency (i + concurrency)
                  (results @ [v. (k, Inr v) \<leftarrow> batchPromises]) trace')
      else Some (trace, Inr results))"

declare processConcurrently_loop.simps [code]

definition processConcurrently ::
  "(int \<Rightarrow> nat) \<Rightarrow> 'a list \<Rightarrow> ('a \<Rightarrow> int \<Rightarrow> 'e + 'b) \<Rightarrow> int
     \<Rightarrow> ('a event list \<times> ('e + 'b list)) option" where
  "processConcurrently delay items processor concurrency =
     processConcurrently_loop delay items processor concurrency 0 [] []"

text \<open>The call without the third argument: \<^verbatim>\<open>concurrency = CONCURRENCY_LIMIT\<close>.\<close>

definition processConcurrently_default ::
  "(int \<Rightarrow> nat) \<Rightarrow> 'a list \<Rightarrow> ('a \<Rightarrow> int \<Rightarrow> 'e + 'b) \<Rightarrow> ('a event list \<times> ('e + 'b list)) option" where
  "processConcurrently_default delay items processor =
     processConcurrently delay items processor CONCURRENCY_LIMIT"

subsection \<open>\<^verbatim>\<open>processRepositories\<close>\<close>

text \<open>The processor \<^verbatim>\<open>processRepo\<close>: it awaits \<^verbatim>\<open>getRepoCommitInfo\<close> and builds the record;
  it has no failing step of its own. The requests and the warning of \<^verbatim>\<open>getRepoCommitInfo\<close>
  happen while the call is outstanding, between its \<open>Invoke\<close> and its \<open>Settled\<close>, and are
  not recorded again.\<close>

definition processRepo :: "octokit \<Rightarrow> repository \<Rightarrow> int \<Rightarrow> js_error + repoData" where
  "processRepo octo repo index =
     (let commitInfo = snd (getRepoCommitInfo octo (owner_login repo) (name repo));
          repoData =
            \<lparr>rd_name = name repo,
             rd_fullName = full_name repo,
             rd_private = is_private repo,
             rd_archived = archived repo,
             rd_fork = fork repo,
             rd_forkedFrom =
               (if fork repo then (case parent_full_name repo of Some p \<Rightarrow> p | None \<Rightarrow> [])
                else []),
             rd_description = (case description repo of Some d \<Rightarrow> d | None \<Rightarrow> []),
             rd_url = html_url repo,
             rd_stars = stargazers_count repo,
             rd_forks = forks_count repo,
             rd_language = (if falsy (language repo) then ''N/A''
                            else (case language repo of Some l \<Rightarrow> l | None \<Rightarrow> ''N/A'')),
             rd_createdAt = created_at repo,
             rd_updatedAt = updated_at repo,
             rd_commitCount = commitCount commitInfo,
             rd_lastCommitDate = lastCommitDate commitInfo,
             rd_size = size_kb repo\<rparr>
      in Inr repoData)"

definition processRepositories ::
  "octokit \<Rightarrow> (int \<Rightarrow> nat) \<Rightarrow> string
     \<Rightarrow> (effect list \<times> repository event list \<times> (js_error + repoData list)) option" where
  "processRepositories octo delay username =
     (case getUserRepos octo username of
        (fx, Inl e) \<Rightarrow> Some (fx, [], Inl e)
      | (fx, Inr repos) \<Rightarrow>
          (let fx1 = fx @ [Log [''Processing repository details...''],
                           Log [''Using concurrency limit: '' @ show_int CONCURRENCY_LIMIT]]
           in case processConcurrently delay repos (processRepo octo) CONCURRENCY_LIMIT of
                None \<Rightarrow> None
              | Some (trace, processedRepos) \<Rightarrow> Some (fx1, trace, processedRepos)))"

subsection \<open>\<^verbatim>\<open>generateCSV\<close> and \<^verbatim>\<open>run\<close>\<close>

text \<open>The writer is created with the path and the column header, a constant that is not
  modelled; writing the records may fail.\<close>

definition generateCSV ::
  "octokit \<Rightarrow> repoData list \<Rightarrow> string \<Rightarrow> effect list \<times> (js_error + unit)" where
  "generateCSV octo repositories outputPath =
     (case writeRecords octo outputPath repositories of
        Inl e \<Rightarrow> ([], Inl e)
      | Inr u \<Rightarrow>
          ([WriteCsv outputPath repositories, Log [''CSV file generated: '' @ outputPath]],
           Inr ()))"

text \<open>The \<^verbatim>\<open>catch\<close> block of \<^verbatim>\<open>run\<close>: the message, then \<^verbatim>\<open>process.exit(1)\<close>.\<close>

definition run_catch ::
  "effect list \<Rightarrow> repository event list \<Rightarrow> js_error
     \<Rightarrow> (effect list \<times> repository event list \<times> nat) option" where
  "run_catch fx trace e = Some (fx @ [Error [''Application error:'', message e]], trace, 1)"

text \<open>The timestamp and the path of \<^verbatim>\<open>run\<close>; \<open>now\<close> is \<^verbatim>\<open>new Date().toISOString()\<close>.\<close>

definition outputPath_of :: "string \<Rightarrow> string \<Rightarrow> string option \<Rightarrow> string" where
  "outputPath_of now username outputFile =
     (let timestamp = slice (replace_colons_dots now) 0 19
      in if falsy outputFile then username @ ''-repositories-'' @ timestamp @ ''.csv''
         else (case outputFile of Some f \<Rightarrow> f | None \<Rightarrow> []))"

definition summary :: "bool \<Rightarrow> string \<Rightarrow> repoData list \<Rightarrow> string \<Rightarrow> effect list" where
  "summary isOwnRepos username repositories outputPath =
     [Log [CHR 0x0A # ''=== Summary ===''],
      (if isOwnRepos then Log [''Analyzed your own repositories (including private ones)'']
       else Log [''Analyzed repositories for user: '' @ username @ '' (public only)'']),
      Log [''Total repositories: '' @ show_nat (length repositories)],
      Log [''Private repositories: '' @ show_nat (length (filter rd_private repositories))],
      Log [''Public repositories: ''
             @ show_nat (length (filter (\<lambda>r. \<not> rd_private r) repositories))],
      Log [''Archived repositories: '' @ show_nat (length (filter rd_archived repositories))],
      Log [''Forked repositories: '' @ show_nat (length (filter rd_fork repositories))],
      Log [''Original repositories: ''
             @ show_nat (length (filter (\<lambda>r. \<not> rd_fork r) repositories))],
      Log [''Total stars: '' @ show_nat (foldl (\<lambda>sum r. sum + rd_stars r) 0 repositories)],
      Log [''Output saved to: '' @ outputPath]]"

text \<open>
  \<^verbatim>\<open>run(username, outputFile = null)\<close>; the arguments are \<^verbatim>\<open>process.argv[2]\<close> and
  \<^verbatim>\<open>process.argv[3]\<close>, \<open>None\<close> when absent. The value is the effects, the events of the
  batch runner and the exit code of the process: 1 after \<^verbatim>\<open>process.exit(1)\<close>, 0 when
  \<^verbatim>\<open>run\<close> returns.
\<close>

definition run ::
  "octokit \<Rightarrow> (int \<Rightarrow> nat) \<Rightarrow> string \<Rightarrow> string option \<Rightarrow> string option
     \<Rightarrow> (effect list \<times> repository event list \<times> nat) option" where
  "run octo delay now username_arg outputFile =
     (if falsy username_arg then
        Some ([Error [''Please provide a GitHub username''],
               Log [''Usage: node index.js <username> [output-file.csv]'']], [], 1)
      else
        (let username = (case username_arg of Some u \<Rightarrow> u | None \<Rightarrow> []);
             outputPath = outputPath_of now username outputFile;
             fx0 = [Log [''Starting GitHub repository analysis...''], Request GetAuthenticated]
         in case users_getAuthenticated octo of
              Inl e \<Rightarrow> run_catch fx0 [] e
            | Inr authenticatedUser \<Rightarrow>
                (let isOwnRepos = (toLowerCase (login authenticatedUser) = toLowerCase username)
                 in case processRepositories octo delay username of
                      None \<Rightarrow> None
                    | Some (fx1, trace, Inl e) \<Rightarrow> run_catch (fx0 @ fx1) trace e
                    | Some (fx1, trace, Inr repositories) \<Rightarrow>
                        (case generateCSV octo repositories outputPath of
                           (fx2, Inl e) \<Rightarrow> run_catch (fx0 @ fx1 @ fx2) trace e
                         | (fx2, Inr u) \<Rightarrow>
                             Some (fx0 @ fx1 @ fx2
                                     @ summary isOwnRepos username repositories outputPath,
                                   trace, 0)))))"

subsection \<open>Observing a run\<close>

text \<open>The number of calls outstanding after a sequence of events: calls made minus
  promises settled.\<close>

fun in_flight :: "'a event list \<Rightarrow> int" where
  "in_flight [] = 0"
| "in_flight (Chunk b # tr) = in_flight tr"
| "in_flight (Invoke k # tr) = in_flight tr + 1"
| "in_flight (Settled k # tr) = in_flight tr - 1"

text \<open>The batches of a run, in the order the loop took them.\<close>

fun chunks_of :: "'a event list \<Rightarrow> 'a list list" where
  "chunks_of [] = []"
| "chunks_of (Chunk b # tr) = b # chunks_of tr"
| "chunks_of (Invoke k # tr) = chunks_of tr"
| "chunks_of (Settled k # tr) = chunks_of tr"

text \<open>A counter of outstanding calls run along the events, starting at \<open>n\<close>: it never
  exceeds \<open>C\<close>, and it is 0 whenever a batch of at most \<open>C\<close> items starts.\<close>

fun within_limit :: "int \<Rightarrow> int \<Rightarrow> 'a event list \<Rightarrow> bool" where
  "within_limit C n [] = (n \<le> C)"
| "within_limit C n (Chunk b # tr) = (n = 0 \<and> int (length b) \<le> C \<and> within_limit C n tr)"
| "within_limit C n (Invoke k # tr) = (n \<le> C \<and> within_limit C (n + 1) tr)"
| "within_limit C n (Settled k # tr) = (n \<le> C \<and> within_limit C (n - 1) tr)"

text \<open>The partition of a list into consecutive chunks of \<open>c\<close> items, the last one shorter
  when \<open>c\<close> does not divide the length.\<close>

function chop :: "nat \<Rightarrow> 'a list \<Rightarrow> 'a list list" where
  "chop c xs = (if c = 0 \<or> xs = [] then [] else take c xs # chop c (drop c xs))"
  by pat_completeness auto
termination
  by (relation "measure (\<lambda>(c, xs). length xs)") auto

declare chop.simps [simp del]

subsection \<open>Observing the effects\<close>

text \<open>The requests sent and the paths of the CSV files written, in order.\<close>

definition requests_of :: "effect list \<Rightarrow> api_call list" where
  "requests_of fx = [c. Request c \<leftarrow> fx]"

definition csv_paths_of :: "effect list \<Rightarrow> string list" where
  "csv_paths_of fx = [p. WriteCsv p rs \<leftarrow> fx]"

subsection \<open>Example inputs\<close>

text \<open>A repository of the account \<open>octocat\<close>, two errors, and a service whose authenticated
  user is \<open>Octocat\<close>, which owns the repositories \<open>a\<close> and \<open>b\<close>; the detail of \<open>a\<close> cannot be
  fetched.\<close>

definition example_repo :: "string \<Rightarrow> repository" where
  "example_repo n =
     \<lparr>name = n, full_name = ''octocat/'' @ n, owner_login = ''octocat'', is_private = False,
      archived = False, fork = False, parent_full_name = None, description = None,
      html_url = ''https://github.com/octocat/'' @ n, stargazers_count = 3, forks_count = 1,
      language = Some ''C'', created_at = ''2020-01-01T00:00:00Z'',
      updated_at = ''2021-01-01T00:00:00Z'', size_kb = 12\<rparr>"

definition not_found :: js_error where
  "not_found = \<lparr>message = ''Not Found'', status = Some 404\<rparr>"

definition network_down :: js_error where
  "network_down = \<lparr>message = ''getaddrinfo ENOTFOUND api.github.com'', status = None\<rparr>"

definition example_octokit :: octokit where
  "example_octokit =
     \<lparr>users_getAuthenticated = Inr \<lparr>login = ''Octocat''\<rparr>,
      paginate_listForAuthenticatedUser =
        (\<lambda>visibility affiliation sort per_page. Inr [example_repo ''a'', example_repo ''b'']),
      paginate_listForUser = (\<lambda>username type per_page. Inr [example_repo ''c'']),
      repos_get = (\<lambda>owner repo. if repo = ''a'' then Inl not_found
                                else Inr \<lparr>default_branch = ''main''\<rparr>),
      repos_listCommits = (\<lambda>owner repo sha per_page.
                             Inr [\<lparr>committer_date = ''2024-05-01T10:00:00Z''\<rparr>]),
      paginate_listCommits = (\<lambda>owner repo sha per_page.
                                Inr [\<lparr>committer_date = ''2024-05-01T10:00:00Z''\<rparr>,
                                     \<lparr>committer_date = ''2024-04-01T10:00:00Z''\<rparr>]),
      writeRecords = (\<lambda>path records. Inr ())\<rparr>"

section \<open>Properties\<close>

subsection \<open>Slices and settling\<close>

lemma slice_forward:
  "0 \<le> i \<Longrightarrow> 0 \<le> c \<Longrightarrow> slice xs i (i + c) = take (nat c) (drop (nat i) xs)"
  by (auto simp: slice_def Let_def min_def max_def)

lemma set_slice: "set (slice xs i j) \<subseteq> set xs"
  unfolding slice_def Let_def
  by (meson set_take_subset set_drop_subset subset_trans)

lemma slice_empty: "slice xs i i = []"
  by (simp add: slice_def Let_def)

lemma settle_fulfilled:
  "(\<And>p. p \<in> set ps \<Longrightarrow> \<exists>v. snd p = Inr v) \<Longrightarrow> settle ps = (map fst ps, None)"
proof (induction ps)
  case Nil
  then show ?case by simp
next
  case (Cons p ps)
  obtain k out where p: "p = (k, out)" by (cases p)
  from Cons.prems[of p] p obtain v where "out = Inr v" by auto
  with Cons p show ?case by simp
qed

lemma settle_shape:
  "settle ps = (ks, r) \<Longrightarrow> length ks \<le> length ps \<and> (r = None \<longrightarrow> length ks = length ps)"
proof (induction ps arbitrary: ks r)
  case Nil
  then show ?case by simp
next
  case (Cons p ps)
  obtain k out where p: "p = (k, out)" by (cases p)
  show ?case
  proof (cases out)
    case (Inl e)
    with Cons.prems p have "ks = [k]" "r = Some e" by auto
    then show ?thesis by simp
  next
    case (Inr v)
    obtain evs' r' where s: "settle ps = (evs', r')" by (cases "settle ps")
    from Cons.IH[OF s] have ks: "length evs' \<le> length ps"
      "r' = None \<longrightarrow> length evs' = length ps" by blast+
    from Cons.prems p Inr s have "ks = k # evs'" "r = r'" by auto
    with ks show ?thesis by simp
  qed
qed

lemma settle_rejected:
  "settle ps = (evs, Some e) \<Longrightarrow> \<exists>k. (k, Inl e) \<in> set ps"
proof (induction ps arbitrary: evs)
  case Nil
  then show ?case by simp
next
  case (Cons p ps)
  obtain k out where p: "p = (k, out)" by (cases p)
  show ?case
  proof (cases out)
    case (Inl e')
    with Cons.prems p show ?thesis by auto
  next
    case (Inr v)
    obtain evs' r' where s: "settle ps = (evs', r')" by (cases "settle ps")
    with Cons.prems p Inr have "r' = Some e" by auto
    with Cons.IH s show ?thesis by (metis list.set_intros(2))
  qed
qed

subsection \<open>One iteration of the loop\<close>

lemma loop_step:
  assumes "0 < c" "n < length items"
  shows "processConcurrently_loop delay items processor (int c) (int n) results trace =
     (let batch = take c (drop n items);
          globalIndex = map (\<lambda>index. int n + int index) [0..<length batch];
          batchPromises = zip globalIndex (map2 processor batch globalIndex);
          (settled, rejected) = settle (sort_key (\<lambda>p. delay (fst p)) batchPromises);
          trace' = trace @ [Chunk batch] @ map Invoke globalIndex @ map Settled settled
      in case rejected of
           Some e \<Rightarrow> Some (trace', Inl e)
         | None \<Rightarrow>
             processConcurrently_loop delay items processor (int c) (int n + int c)
               (results @ [v. (k, Inr v) \<leftarrow> batchPromises]) trace')"
  using assms
  by (subst processConcurrently_loop.simps) (simp add: slice_forward)

lemma loop_exit:
  "length items \<le> n \<Longrightarrow>
   processConcurrently_loop delay items processor C (int n) results trace = Some (trace, Inr results)"
  by (subst processConcurrently_loop.simps) simp

lemma batch_fulfilled:
  assumes "\<And>k. k < length items \<Longrightarrow> processor (items ! k) (int k) = Inr (f k)"
  shows "map2 processor (take c (drop n items))
           (map (\<lambda>index. int n + int index) [0..<length (take c (drop n items))])
         = map (\<lambda>k. Inr (f k)) [n..<n + length (take c (drop n items))]"
proof (rule nth_equalityI)
  show "length (map2 processor (take c (drop n items))
           (map (\<lambda>index. int n + int index) [0..<length (take c (drop n items))]))
        = length (map (\<lambda>k. Inr (f k)) [n..<n + length (take c (drop n items))])"
    by simp
next
  fix j
  assume "j < length (map2 processor (take c (drop n items))
           (map (\<lambda>index. int n + int index) [0..<length (take c (drop n items))]))"
  then have j: "j < length (take c (drop n items))" by simp
  then have "j < c" "n + j < length items" by auto
  then have "take c (drop n items) ! j = items ! (n + j)" by simp
  with j assms[of "n + j"] \<open>n + j < length items\<close>
  show "map2 processor (take c (drop n items))
           (map (\<lambda>index. int n + int index) [0..<length (take c (drop n items))]) ! j
        = map (\<lambda>k. Inr (f k)) [n..<n + length (take c (drop n items))] ! j"
    by (simp del: length_take nth_take)
qed

lemma fulfilled_values:
  "[v. (k, Inr v) \<leftarrow> zip ks (map (\<lambda>k. Inr (f k)) ns)] = map f (take (length ks) ns)"
proof (induction ns arbitrary: ks)
  case Nil
  then show ?case by simp
next
  case (Cons n ns)
  then show ?case by (cases ks) simp_all
qed

subsection \<open>A run in which every call fulfils\<close>

lemma in_flight_append: "in_flight (xs @ ys) = in_flight xs + in_flight ys"
  by (induction xs rule: in_flight.induct) simp_all

lemma in_flight_Invoke: "in_flight (map Invoke ks) = int (length ks)"
  by (induction ks) simp_all

lemma in_flight_Settled: "in_flight (map Settled ks) = - int (length ks)"
  by (induction ks) simp_all

lemma chunks_of_append: "chunks_of (xs @ ys) = chunks_of xs @ chunks_of ys"
  by (induction xs rule: chunks_of.induct) simp_all

lemma chunks_of_Invoke: "chunks_of (map Invoke ks) = []"
  by (induction ks) simp_all

lemma chunks_of_Settled: "chunks_of (map Settled ks) = []"
  by (induction ks) simp_all

lemma upt_split: "n + b = min (n + c) N \<Longrightarrow> n < N \<Longrightarrow> [n..<n + b] @ [n + c..<N] = [n..<N]"
proof (cases "n + c \<le> N")
  case True
  assume "n + b = min (n + c) N"
  with True have "b = c" by simp
  with True show ?thesis
    using upt_add_eq_append[of n "n + c" "N - (n + c)"] by simp
next
  case False
  assume "n + b = min (n + c) N"
  with False have "n + b = N" "[n + c..<N] = []" by simp_all
  then show ?thesis by simp
qed

lemma loop_fulfilled:
  assumes c: "0 < c"
    and f: "\<And>k. k < length items \<Longrightarrow> processor (items ! k) (int k) = Inr (f k)"
  shows "\<exists>tr. processConcurrently_loop delay items processor (int c) (int n) results trace
               = Some (tr, Inr (results @ map f [n..<length items]))
             \<and> chunks_of tr = chunks_of trace @ chop c (drop n items)"
proof (induction "length items - n" arbitrary: n results trace rule: less_induct)
  case less
  show ?case
  proof (cases "n < length items")
    case False
    then show ?thesis by (simp add: loop_exit chop.simps)
  next
    case True
    define batch where "batch = take c (drop n items)"
    define globalIndex where "globalIndex = map (\<lambda>index. int n + int index) [0..<length batch]"
    define batchPromises where "batchPromises = zip globalIndex (map2 processor batch globalIndex)"
    define trace' where "trace' = trace @ [Chunk batch] @ map Invoke globalIndex
       @ map Settled (map fst (sort_key (\<lambda>p. delay (fst p)) batchPromises))"
    have lb: "n + length batch = min (n + c) (length items)"
      using True by (auto simp: batch_def min_def)
    have outs: "map2 processor batch globalIndex = map (\<lambda>k. Inr (f k)) [n..<n + length batch]"
      unfolding batch_def globalIndex_def by (rule batch_fulfilled) (rule f)
    have "\<exists>v. snd p = Inr v" if "p \<in> set (sort_key (\<lambda>p. delay (fst p)) batchPromises)" for p
    proof -
      from that have "p \<in> set (zip globalIndex (map (\<lambda>k. Inr (f k)) [n..<n + length batch]))"
        by (simp add: batchPromises_def outs)
      then have "snd p \<in> set (map (\<lambda>k. Inr (f k)) [n..<n + length batch])"
        by (metis in_set_zipE prod.collapse)
      then show ?thesis by auto
    qed
    then have st: "settle (sort_key (\<lambda>p. delay (fst p)) batchPromises)
               = (map fst (sort_key (\<lambda>p. delay (fst p)) batchPromises), None)"
      by (rule settle_fulfilled)
    have vals: "[v. (k, Inr v) \<leftarrow> batchPromises] = map f [n..<n + length batch]"
      unfolding batchPromises_def outs by (simp add: fulfilled_values globalIndex_def)
    have step: "processConcurrently_loop delay items processor (int c) (int n) results trace
        = processConcurrently_loop delay items processor (int c) (int (n + c))
            (results @ map f [n..<n + length batch]) trace'"
      using st vals
      by (simp add: loop_step[OF c True] Let_def trace'_def
          flip: batch_def globalIndex_def batchPromises_def del: length_take map_map)
    have "length items - (n + c) < length items - n" using c True by simp
    from less[OF this, of "results @ map f [n..<n + length batch]" trace']
    obtain tr where tr:
      "processConcurrently_loop delay items processor (int c) (int (n + c))
         (results @ map f [n..<n + length batch]) trace'
       = Some (tr, Inr ((results @ map f [n..<n + length batch]) @ map f [n + c..<length items]))"
      "chunks_of tr = chunks_of trace' @ chop c (drop (n + c) items)"
      by blast
    have r: "(results @ map f [n..<n + length batch]) @ map f [n + c..<length items]
        = results @ map f [n..<length items]"
      using upt_split[OF lb True] by (metis append.assoc map_append)
    have "drop n items \<noteq> []" using True by simp
    then have "chop c (drop n items) = batch # chop c (drop (n + c) items)"
      using c by (subst chop.simps) (simp add: batch_def add.commute)
    moreover have "chunks_of trace' = chunks_of trace @ [batch]"
      by (simp add: trace'_def chunks_of_append chunks_of_Invoke chunks_of_Settled del: map_map)
    ultimately have "chunks_of tr = chunks_of trace @ chop c (drop n items)"
      using tr(2) by simp
    with step tr(1) r show ?thesis by simp
  qed
qed

subsection \<open>The partition into chunks\<close>

lemma concat_chop: "0 < c \<Longrightarrow> concat (chop c xs) = xs"
proof (induction c xs rule: chop.induct)
  case (1 c xs)
  show ?case
  proof (cases "xs = []")
    case True
    then show ?thesis by (simp add: chop.simps[of c "[]"])
  next
    case False
    with "1.prems" have "chop c xs = take c xs # chop c (drop c xs)"
      by (simp add: chop.simps[of c xs])
    moreover from "1.IH" False "1.prems" have "concat (chop c (drop c xs)) = drop c xs" by simp
    ultimately show ?thesis by simp
  qed
qed


lemma chop_Nil: "chop c [] = []"
  by (simp add: chop.simps[of c "[]"])

lemma chop_Cons: "0 < c \<Longrightarrow> xs \<noteq> [] \<Longrightarrow> chop c xs = take c xs # chop c (drop c xs)"
  by (simp add: chop.simps[of c xs])

lemma chop_sizes:
  "0 < c \<Longrightarrow> map length (chop c xs)
     = replicate (length xs div c) c @ (if length xs mod c = 0 then [] else [length xs mod c])"
proof (induction c xs rule: chop.induct)
  case (1 c xs)
  show ?case
  proof (cases "xs = []")
    case True
    then show ?thesis by (simp add: chop_Nil)
  next
    case False
    note ne = this
    have IH: "map length (chop c (drop c xs))
       = replicate (length (drop c xs) div c) c
         @ (if length (drop c xs) mod c = 0 then [] else [length (drop c xs) mod c])"
      using "1.IH" "1.prems" ne by simp
    show ?thesis
    proof (cases "c \<le> length xs")
      case True
      then have d: "length xs div c = Suc ((length xs - c) div c)"
        "length xs mod c = (length xs - c) mod c"
        using "1.prems" by (simp_all add: le_div_geq le_mod_geq)
      from True have m: "min (length xs) c = c" by simp
      have "map length (chop c xs) = c # map length (chop c (drop c xs))"
        using chop_Cons[OF "1.prems" ne] m by simp
      also have "\<dots> = replicate (length xs div c) c
           @ (if length xs mod c = 0 then [] else [length xs mod c])"
        unfolding IH d by simp
      finally show ?thesis .
    next
      case False
      then have "length xs < c" by simp
      then have e: "drop c xs = []" "length xs div c = 0" "length xs mod c = length xs"
        "min (length xs) c = length xs" by simp_all
      have "map length (chop c xs) = [length xs]"
        using chop_Cons[OF "1.prems" ne] e by (simp add: chop_Nil)
      then show ?thesis using e ne by simp
    qed
  qed
qed


lemma length_chop:
  assumes "0 < c"
  shows "int (length (chop c xs)) = \<lceil>real (length xs) / real c\<rceil>"
proof -
  have "length (chop c xs) = length (map length (chop c xs))" by simp
  also have "\<dots> = length xs div c + (if length xs mod c = 0 then 0 else 1)"
    unfolding chop_sizes[OF assms] by simp
  finally have l: "length (chop c xs) = length xs div c + (if length xs mod c = 0 then 0 else 1)" .
  have "\<lceil>real (length xs) / real c\<rceil> = \<lceil>of_int (int (length xs)) / (of_int (int c) :: real)\<rceil>"
    by simp
  also have "\<dots> = - (- int (length xs) div int c)"
    by (rule ceiling_divide_eq_div)
  also have "\<dots> = int (length xs div c + (if length xs mod c = 0 then 0 else 1))"
  proof (cases "length xs mod c = 0")
    case True
    then have "int (length xs) mod int c = 0" by (metis of_nat_0 zmod_int)
    then show ?thesis using True assms by (simp add: zdiv_zminus1_eq_if zdiv_int)
  next
    case False
    then have "int (length xs) mod int c \<noteq> 0" by (metis of_nat_eq_0_iff zmod_int)
    then show ?thesis using False assms by (simp add: zdiv_zminus1_eq_if zdiv_int)
  qed
  finally show ?thesis using l by simp
qed

lemma chop_bound: "0 < c \<Longrightarrow> b \<in> set (chop c xs) \<Longrightarrow> b \<noteq> [] \<and> length b \<le> c"
proof (induction c xs rule: chop.induct)
  case (1 c xs)
  show ?case
  proof (cases "xs = []")
    case True
    with "1.prems"(2) show ?thesis by (simp add: chop_Nil)
  next
    case False
    from "1.prems"(2) have "b = take c xs \<or> b \<in> set (chop c (drop c xs))"
      unfolding chop_Cons[OF "1.prems"(1) False] by simp
    then show ?thesis
    proof
      assume "b = take c xs"
      with False "1.prems"(1) show ?thesis by simp
    next
      assume "b \<in> set (chop c (drop c xs))"
      with "1.IH" "1.prems"(1) False show ?thesis by simp
    qed
  qed
qed

subsection \<open>The counter of outstanding calls\<close>

lemma within_limit_le: "within_limit C n tr \<Longrightarrow> n \<le> C"
  by (induction C n tr rule: within_limit.induct) simp_all

lemma within_limit_append:
  "within_limit C n (xs @ ys) = (within_limit C n xs \<and> within_limit C (n + in_flight xs) ys)"
proof (induction C n xs rule: within_limit.induct)
  case (1 C n)
  then show ?case using within_limit_le[of C n ys] by auto
next
  case (2 C n b tr)
  then show ?case by auto
next
  case (3 C n k tr)
  have "n + 1 + in_flight tr = n + (in_flight tr + 1)" by simp
  with 3 show ?case by auto
next
  case (4 C n k tr)
  have "n - 1 + in_flight tr = n + (in_flight tr - 1)" by simp
  with 4 show ?case by auto
qed

lemma within_limit_Invoke:
  "within_limit C n (map Invoke ks :: 'a event list) = (n + int (length ks) \<le> C)"
proof (induction ks arbitrary: n)
  case Nil
  then show ?case by simp
next
  case (Cons k ks)
  have "within_limit C (n + 1) (map Invoke ks :: 'a event list) = (n + 1 + int (length ks) \<le> C)"
    by (rule Cons)
  then show ?case by auto
qed

lemma within_limit_Settled: "n \<le> C \<Longrightarrow> within_limit C n (map Settled ks)"
proof (induction ks arbitrary: n)
  case Nil
  then show ?case by simp
next
  case (Cons k ks)
  from Cons.prems have "n - 1 \<le> C" by simp
  from Cons.IH[OF this] Cons.prems show ?case by simp
qed


lemma within_limit_batch:
  assumes "within_limit C 0 trace" "in_flight trace = 0" "int (length b) \<le> C"
    "length gi = length b"
  shows "within_limit C 0 (trace @ [Chunk b] @ map Invoke gi @ map Settled ks)"
proof -
  have "within_limit C (int (length gi)) (map Settled ks :: 'a event list)"
    using assms(3,4) by (simp add: within_limit_Settled)
  then have "within_limit C 0 (map Invoke gi @ map Settled ks :: 'a event list)"
    using assms(3,4) by (simp add: within_limit_append within_limit_Invoke in_flight_Invoke)
  then have "within_limit C 0 ([Chunk b] @ map Invoke gi @ map Settled ks)"
    using assms(3) by simp
  with assms(1,2) show ?thesis
    by (simp only: within_limit_append[of C 0 trace] add_0_left simp_thms)
qed

lemma in_flight_batch:
  "length ks = length gi \<Longrightarrow>
   in_flight (trace @ [Chunk b] @ map Invoke gi @ map Settled ks) = in_flight trace"
  by (simp add: in_flight_append in_flight_Invoke in_flight_Settled)

lemma within_limit_take:
  "within_limit C m tr \<Longrightarrow>
     m + in_flight (take n tr) \<le> C \<and>
     (\<forall>b. n < length tr \<and> tr ! n = Chunk b \<longrightarrow>
          int (length b) \<le> C \<and> m + in_flight (take n tr) = 0)"
proof (induction C m tr arbitrary: n rule: within_limit.induct)
  case (1 C m)
  then show ?case by simp
next
  case (2 C m b tr)
  show ?case
  proof (cases n)
    case 0
    with "2.prems" show ?thesis by simp
  next
    case (Suc n')
    from "2.prems" have "within_limit C m tr" by auto
    from "2.IH"[OF this, of n'] Suc show ?thesis by simp
  qed
next
  case (3 C m k tr)
  show ?case
  proof (cases n)
    case 0
    with "3.prems" show ?thesis by simp
  next
    case (Suc n')
    from "3.prems" have "within_limit C (m + 1) tr" by simp
    from "3.IH"[OF this, of n'] Suc show ?thesis by (simp add: algebra_simps)
  qed
next
  case (4 C m k tr)
  show ?case
  proof (cases n)
    case 0
    with "4.prems" show ?thesis by simp
  next
    case (Suc n')
    from "4.prems" have "within_limit C (m - 1) tr" by simp
    from "4.IH"[OF this, of n'] Suc show ?thesis by (simp add: algebra_simps)
  qed
qed

subsection \<open>Any run with a positive limit\<close>

lemma settle_None:
  "settle ps = (ks, None) \<Longrightarrow> p \<in> set ps \<Longrightarrow> \<exists>v. snd p = Inr v"
proof (induction ps arbitrary: ks)
  case Nil
  then show ?case by simp
next
  case (Cons q ps)
  obtain k out where q: "q = (k, out)" by (cases q)
  show ?case
  proof (cases out)
    case (Inl e)
    with Cons.prems q show ?thesis by simp
  next
    case (Inr v)
    obtain ks' r' where s: "settle ps = (ks', r')" by (cases "settle ps")
    with Cons.prems(1) q Inr have "r' = None" by simp
    with Cons.IH s Cons.prems(2) q Inr show ?thesis by auto
  qed
qed

lemma batch_member:
  assumes "n \<le> k" "k < n + length (take c (drop n items))"
  shows "(int k, processor (items ! k) (int k))
     \<in> set (zip (map (\<lambda>index. int n + int index) [0..<length (take c (drop n items))])
               (map2 processor (take c (drop n items))
                  (map (\<lambda>index. int n + int index) [0..<length (take c (drop n items))])))"
proof -
  define b where "b = take c (drop n items)"
  define gi where "gi = map (\<lambda>index. int n + int index) [0..<length b]"
  define j where "j = k - n"
  from assms have j: "j < length b" "k = n + j" by (auto simp: j_def b_def)
  then have "j < c" "n + j < length items" by (auto simp: b_def)
  then have bj: "b ! j = items ! (n + j)" by (simp add: b_def)
  have gj: "gi ! j = int k" using j by (simp add: gi_def)
  have lg: "length gi = length b" by (simp add: gi_def)
  have "zip gi (map2 processor b gi) ! j = (int k, processor (items ! k) (int k))"
    using j(1) lg bj gj j(2) by simp
  moreover have "j < length (zip gi (map2 processor b gi))" using j(1) lg by simp
  ultimately have "(int k, processor (items ! k) (int k)) \<in> set (zip gi (map2 processor b gi))"
    by (metis nth_mem)
  then show ?thesis by (simp only: gi_def b_def)
qed

lemma loop_general:
  assumes c: "0 < c"
  shows "\<exists>tr r. processConcurrently_loop delay items processor (int c) (int n) results trace
               = Some (tr, r)
           \<and> (within_limit (int c) 0 trace \<and> in_flight trace = 0 \<longrightarrow> within_limit (int c) 0 tr)
           \<and> (\<forall>rs. r = Inr rs \<longrightarrow>
                 (\<forall>k. n \<le> k \<and> k < length items \<longrightarrow> (\<exists>v. processor (items ! k) (int k) = Inr v)))"
proof (induction "length items - n" arbitrary: n results trace rule: less_induct)
  case less
  show ?case
  proof (cases "n < length items")
    case False
    then show ?thesis by (auto simp: loop_exit)
  next
    case True
    define batch where "batch = take c (drop n items)"
    define globalIndex where "globalIndex = map (\<lambda>index. int n + int index) [0..<length batch]"
    define batchPromises where "batchPromises = zip globalIndex (map2 processor batch globalIndex)"
    obtain settled rejected where
      st: "settle (sort_key (\<lambda>p. delay (fst p)) batchPromises) = (settled, rejected)"
      by (cases "settle (sort_key (\<lambda>p. delay (fst p)) batchPromises)")
    define trace' where
      "trace' = trace @ [Chunk batch] @ map Invoke globalIndex @ map Settled settled"
    have lg: "length globalIndex = length batch" by (simp add: globalIndex_def)
    have lp: "length (sort_key (\<lambda>p. delay (fst p)) batchPromises) = length batch"
      by (simp add: batchPromises_def lg)
    have lbc: "int (length batch) \<le> int c" by (simp add: batch_def)
    have wl: "within_limit (int c) 0 trace'" if "within_limit (int c) 0 trace" "in_flight trace = 0"
      unfolding trace'_def using that lbc lg by (rule within_limit_batch)
    have step: "processConcurrently_loop delay items processor (int c) (int n) results trace
        = (case rejected of
             Some e \<Rightarrow> Some (trace', Inl e)
           | None \<Rightarrow> processConcurrently_loop delay items processor (int c) (int (n + c))
                      (results @ [v. (k, Inr v) \<leftarrow> batchPromises]) trace')"
      using st
      by (cases rejected)
         (simp_all add: loop_step[OF c True] Let_def trace'_def
            flip: batch_def globalIndex_def batchPromises_def del: length_take map_map)
    show ?thesis
    proof (cases rejected)
      case (Some e)
      with step wl show ?thesis by simp
    next
      case None
      have "length items - (n + c) < length items - n" using c True by simp
      from less[OF this, of "results @ [v. (k, Inr v) \<leftarrow> batchPromises]" trace']
      obtain tr r where tr:
        "processConcurrently_loop delay items processor (int c) (int (n + c))
           (results @ [v. (k, Inr v) \<leftarrow> batchPromises]) trace' = Some (tr, r)"
        "within_limit (int c) 0 trace' \<and> in_flight trace' = 0 \<longrightarrow> within_limit (int c) 0 tr"
        "\<forall>rs. r = Inr rs \<longrightarrow>
           (\<forall>k. n + c \<le> k \<and> k < length items \<longrightarrow> (\<exists>v. processor (items ! k) (int k) = Inr v))"
        by blast
      from settle_shape[OF st] None lp have "length settled = length globalIndex"
        by (simp add: lg)
      then have fl: "in_flight trace' = in_flight trace"
        unfolding trace'_def by (rule in_flight_batch)
      have ful: "\<exists>v. processor (items ! k) (int k) = Inr v"
        if "n \<le> k" "k < n + c" "k < length items" for k
      proof -
        from that have "k < n + length (take c (drop n items))" by auto
        from batch_member[OF that(1) this, of processor]
        have "(int k, processor (items ! k) (int k)) \<in> set batchPromises"
          by (simp only: batchPromises_def globalIndex_def batch_def)
        then have "(int k, processor (items ! k) (int k))
            \<in> set (sort_key (\<lambda>p. delay (fst p)) batchPromises)" by simp
        from settle_None[OF st[unfolded None] this] show ?thesis by simp
      qed
      have "\<exists>v. processor (items ! k) (int k) = Inr v"
        if "r = Inr rs" "n \<le> k" "k < length items" for rs k
      proof (cases "k < n + c")
        case True
        with that ful show ?thesis by blast
      next
        case False
        with that tr(3) show ?thesis by simp
      qed
      with step None tr(1,2) wl fl show ?thesis by auto
    qed
  qed
qed

subsection \<open>Runs with a limit of zero or less\<close>

lemma rejected_by_item:
  assumes "settle (sort_key (\<lambda>p. delay (fst p)) (zip gi (map2 processor batch gi))) = (ks, Some e)"
  shows "batch \<noteq> [] \<and> (\<exists>x k. x \<in> set batch \<and> processor x k = Inl e)"
proof -
  from settle_rejected[OF assms] obtain k where
    "(k, Inl e) \<in> set (sort_key (\<lambda>p. delay (fst p)) (zip gi (map2 processor batch gi)))" ..
  then have "(k, Inl e) \<in> set (zip gi (map2 processor batch gi))" by simp
  then have "Inl e \<in> set (map2 processor batch gi)" by (rule set_zip_rightD)
  then obtain x k' where "(x, k') \<in> set (zip batch gi)" "processor x k' = Inl e" by auto
  then have "x \<in> set batch" by (metis set_zip_leftD)
  with \<open>processor x k' = Inl e\<close> show ?thesis by auto
qed

lemma loop_nonpositive:
  assumes "processConcurrently_loop delay items processor C i results trace = Some y"
  shows "C \<le> 0 \<and> i \<le> 0 \<and> items \<noteq> [] \<longrightarrow>
           C < 0 \<and> (\<exists>e x k. snd y = Inl e \<and> x \<in> set items \<and> processor x k = Inl e)"
proof (rule processConcurrently_loop.raw_induct
         [where P = "\<lambda>delay items processor C i results trace y.
             C \<le> 0 \<and> i \<le> 0 \<and> items \<noteq> [] \<longrightarrow>
               C < 0 \<and> (\<exists>e x k. snd y = Inl e \<and> x \<in> set items \<and> processor x k = Inl e)",
          OF _ assms], goal_cases)
  case (1 loop delay items processor C i results trace y)
  note IH = "1"(1) and prem = "1"(2)
  show ?case
  proof (intro impI, elim conjE)
    assume C: "C \<le> 0" and i: "i \<le> 0" and ne: "items \<noteq> []"
    then have lt: "i < int (length items)" by (cases items) auto
    define batch where "batch = slice items i (i + C)"
    define globalIndex where "globalIndex = map (\<lambda>index. i + int index) [0..<length batch]"
    define batchPromises where "batchPromises = zip globalIndex (map2 processor batch globalIndex)"
    obtain settled rejected where
      st: "settle (sort_key (\<lambda>p. delay (fst p)) batchPromises) = (settled, rejected)"
      by (cases "settle (sort_key (\<lambda>p. delay (fst p)) batchPromises)")
    define trace' where
      "trace' = trace @ [Chunk batch] @ map Invoke globalIndex @ map Settled settled"
    from prem lt st have step:
      "(case rejected of
          Some e \<Rightarrow> Some (trace', Inl e)
        | None \<Rightarrow> loop delay items processor C (i + C)
                   (results @ [v. (k, Inr v) \<leftarrow> batchPromises]) trace') = Some y"
      by (cases rejected)
         (simp_all add: Let_def trace'_def
            flip: batch_def globalIndex_def batchPromises_def del: map_map)
    show "C < 0 \<and> (\<exists>e x k. snd y = Inl e \<and> x \<in> set items \<and> processor x k = Inl e)"
    proof (cases rejected)
      case None
      with step have "loop delay items processor C (i + C)
                   (results @ [v. (k, Inr v) \<leftarrow> batchPromises]) trace' = Some y" by simp
      from IH[OF this] C i ne show ?thesis by simp
    next
      case (Some e)
      with step have y: "snd y = Inl e" by auto
      from rejected_by_item[OF st[unfolded batchPromises_def Some]]
      obtain x k where x: "batch \<noteq> []" "x \<in> set batch" "processor x k = Inl e" by blast
      from x(2) have "x \<in> set items" using set_slice[of items i "i + C"] by (auto simp: batch_def)
      moreover have "C \<noteq> 0" using x(1) by (auto simp: batch_def slice_empty)
      ultimately show ?thesis using C y x(3) by auto
    qed
  qed
qed

subsection \<open>Runs from the start\<close>

lemma processConcurrently_fulfilled:
  assumes "1 \<le> C"
    and f: "\<And>k. k < length items \<Longrightarrow> processor (items ! k) (int k) = Inr (f k)"
  shows "\<exists>tr. processConcurrently delay items processor C
               = Some (tr, Inr (map f [0..<length items]))
             \<and> chunks_of tr = chop (nat C) items"
proof -
  from assms(1) have c: "0 < nat C" "int (nat C) = C" by simp_all
  from loop_fulfilled[of "nat C" items processor f delay 0 "[]" "[]", OF c(1) f]
  show ?thesis using assms(1) by (simp add: processConcurrently_def)
qed

lemma processConcurrently_general:
  assumes "1 \<le> C"
  shows "\<exists>tr r. processConcurrently delay items processor C = Some (tr, r)
           \<and> within_limit C 0 tr
           \<and> (\<forall>rs. r = Inr rs \<longrightarrow>
                 (\<forall>k. k < length items \<longrightarrow> (\<exists>v. processor (items ! k) (int k) = Inr v)))"
proof -
  from assms(1) have c: "0 < nat C" "int (nat C) = C" by simp_all
  have w: "within_limit C 0 []" using assms by simp
  from loop_general[of "nat C" delay items processor 0 "[]" "[]", OF c(1)] w
  show ?thesis using assms(1) by (simp add: processConcurrently_def)
qed

lemma processConcurrently_empty:
  "processConcurrently delay [] processor C = Some ([], Inr [])"
  unfolding processConcurrently_def
  by (subst processConcurrently_loop.simps) simp

lemma processConcurrently_same_results:
  assumes "1 \<le> C" "1 \<le> C'"
    and "processConcurrently delay items processor C = Some (t1, Inr rs)"
  shows "\<exists>t2. processConcurrently delay' items processor C' = Some (t2, Inr rs)"
proof -
  from processConcurrently_general[OF assms(1), of delay items processor] assms(3)
  have ful: "\<forall>k. k < length items \<longrightarrow> (\<exists>v. processor (items ! k) (int k) = Inr v)"
    by auto
  define f where "f k = projr (processor (items ! k) (int k))" for k
  have f: "processor (items ! k) (int k) = Inr (f k)" if "k < length items" for k
    using ful that by (auto simp: f_def)
  have "\<exists>tr. processConcurrently delay items processor C
               = Some (tr, Inr (map f [0..<length items]))
             \<and> chunks_of tr = chop (nat C) items"
    by (rule processConcurrently_fulfilled) (fact assms(1), rule f)
  with assms(3) have "rs = map f [0..<length items]" by auto
  moreover have "\<exists>tr. processConcurrently delay' items processor C'
               = Some (tr, Inr (map f [0..<length items]))
             \<and> chunks_of tr = chop (nat C') items"
    by (rule processConcurrently_fulfilled) (fact assms(2), rule f)
  ultimately show ?thesis by auto
qed

subsection \<open>The listing, the enricher and the run\<close>

lemma getRepoCommitInfo_flag_cases:
  "getRepoCommitInfo_flag flag octo owner repo =
     (case repos_get octo owner repo of
        Inl e \<Rightarrow> getRepoCommitInfo_catch [Request (ReposGet owner repo)] owner repo e
      | Inr repoInfo \<Rightarrow>
          (case repos_listCommits octo owner repo (default_branch repoInfo) 1 of
             Inl e \<Rightarrow> getRepoCommitInfo_catch
                        [Request (ReposGet owner repo),
                         Request (ListCommits owner repo (default_branch repoInfo) 1)] owner repo e
           | Inr commits \<Rightarrow>
               (if flag then
                  (case paginate_listCommits octo owner repo (default_branch repoInfo) 100 of
                     Inl e \<Rightarrow> getRepoCommitInfo_catch
                                [Request (ReposGet owner repo),
                                 Request (ListCommits owner repo (default_branch repoInfo) 1),
                                 Request (PaginateListCommits owner repo (default_branch repoInfo) 100)]
                                owner repo e
                   | Inr allCommits \<Rightarrow>
                       ([Request (ReposGet owner repo),
                         Request (ListCommits owner repo (default_branch repoInfo) 1),
                         Request (PaginateListCommits owner repo (default_branch repoInfo) 100)],
                        \<lparr>commitCount = int (length allCommits),
                         lastCommitDate = (case commits of [] \<Rightarrow> None
                                           | c # _ \<Rightarrow> Some (committer_date c))\<rparr>))
                else
                  ([Request (ReposGet owner repo),
                    Request (ListCommits owner repo (default_branch repoInfo) 1)],
                   \<lparr>commitCount = - 1,
                    lastCommitDate = (case commits of [] \<Rightarrow> None
                                      | c # _ \<Rightarrow> Some (committer_date c))\<rparr>))))"
  by (simp add: getRepoCommitInfo_flag_def Let_def split: sum.splits)

lemma processRepo_fulfils:
  "\<exists>v. processRepo octo repo index = Inr v"
  by (simp add: processRepo_def Let_def)

lemma processRepo_fields:
  "processRepo octo repo index = Inr v \<Longrightarrow>
     rd_name v = name repo \<and> rd_fullName v = full_name repo \<and> rd_private v = is_private repo
     \<and> rd_archived v = archived repo \<and> rd_fork v = fork repo \<and> rd_url v = html_url repo
     \<and> rd_stars v = stargazers_count repo \<and> rd_forks v = forks_count repo
     \<and> rd_createdAt v = created_at repo \<and> rd_updatedAt v = updated_at repo
     \<and> rd_size v = size_kb repo
     \<and> rd_commitCount v = commitCount (snd (getRepoCommitInfo octo (owner_login repo) (name repo)))
     \<and> rd_lastCommitDate v
         = lastCommitDate (snd (getRepoCommitInfo octo (owner_login repo) (name repo)))"
  by (auto simp: processRepo_def Let_def)

lemma getUserRepos_example:
  "getUserRepos example_octokit ''octocat'' =
     ([Log [''Fetching repositories for user: octocat''], Request GetAuthenticated,
       Log [''Fetching your own repositories (including private ones)...''],
       Request (PaginateListForAuthenticatedUser ''all'' ''owner'' ''updated'' 100),
       Log [''Found 2 repositories'']],
      Inr [example_repo ''a'', example_repo ''b''])"
  by code_simp

lemma processRepositories_records:
  assumes "getUserRepos octo username = (fx, Inr repos)"
  shows "\<exists>fx' tr records. processRepositories octo delay username = Some (fx', tr, Inr records)
           \<and> length records = length repos
           \<and> (\<forall>i < length repos. processRepo octo (repos ! i) (int i) = Inr (records ! i))"
proof -
  define f where "f k = projr (processRepo octo (repos ! k) (int k))" for k
  have f: "processRepo octo (repos ! k) (int k) = Inr (f k)" if "k < length repos" for k
    using processRepo_fulfils[of octo "repos ! k" "int k"] by (auto simp: f_def)
  have lim: "1 \<le> CONCURRENCY_LIMIT" by (simp add: CONCURRENCY_LIMIT_def)
  have "\<exists>tr. processConcurrently delay repos (processRepo octo) CONCURRENCY_LIMIT
               = Some (tr, Inr (map f [0..<length repos]))
             \<and> chunks_of tr = chop (nat CONCURRENCY_LIMIT) repos"
    by (rule processConcurrently_fulfilled) (fact lim, rule f)
  then obtain tr where "processConcurrently delay repos (processRepo octo) CONCURRENCY_LIMIT
               = Some (tr, Inr (map f [0..<length repos]))" by blast
  with assms have "processRepositories octo delay username
      = Some (fx @ [Log [''Processing repository details...''],
                    Log [''Using concurrency limit: '' @ show_int CONCURRENCY_LIMIT]],
              tr, Inr (map f [0..<length repos]))"
    by (simp add: processRepositories_def)
  moreover have "\<forall>i < length repos. processRepo octo (repos ! i) (int i)
      = Inr (map f [0..<length repos] ! i)"
    using f by simp
  moreover have "length (map f [0..<length repos]) = length repos" by simp
  ultimately show ?thesis by blast
qed

lemma getRepoCommitInfo_flag_failure:
  assumes "repos_get octo owner repo = Inl e
         \<or> (\<exists>repoInfo. repos_get octo owner repo = Inr repoInfo
              \<and> (repos_listCommits octo owner repo (default_branch repoInfo) 1 = Inl e
                 \<or> (\<exists>commits.
                       repos_listCommits octo owner repo (default_branch repoInfo) 1 = Inr commits
                     \<and> flag
                     \<and> paginate_listCommits octo owner repo (default_branch repoInfo) 100 = Inl e)))"
  shows "\<exists>fx. getRepoCommitInfo_flag flag octo owner repo = getRepoCommitInfo_catch fx owner repo e"
  using assms by (auto simp: getRepoCommitInfo_flag_cases)

lemma getUserRepos_cases:
  "getUserRepos octo username =
     (case users_getAuthenticated octo of
        Inl e \<Rightarrow>
          getUserRepos_catch
            [Log [''Fetching repositories for user: '' @ username], Request GetAuthenticated] e
      | Inr u \<Rightarrow>
          (if toLowerCase (login u) = toLowerCase username then
             (case paginate_listForAuthenticatedUser octo ''all'' ''owner'' ''updated'' 100 of
                Inl e \<Rightarrow>
                  getUserRepos_catch
                    [Log [''Fetching repositories for user: '' @ username], Request GetAuthenticated,
                     Log [''Fetching your own repositories (including private ones)...''],
                     Request (PaginateListForAuthenticatedUser ''all'' ''owner'' ''updated'' 100)] e
              | Inr repos \<Rightarrow>
                  ([Log [''Fetching repositories for user: '' @ username], Request GetAuthenticated,
                    Log [''Fetching your own repositories (including private ones)...''],
                    Request (PaginateListForAuthenticatedUser ''all'' ''owner'' ''updated'' 100),
                    Log [''Found '' @ show_nat (length repos) @ '' repositories'']],
                   Inr repos))
           else
             (case paginate_listForUser octo username ''all'' 100 of
                Inl e \<Rightarrow>
                  getUserRepos_catch
                    [Log [''Fetching repositories for user: '' @ username], Request GetAuthenticated,
                     Log [''Fetching repositories for another user (public only)...''],
                     Request (PaginateListForUser username ''all'' 100)] e
              | Inr repos \<Rightarrow>
                  ([Log [''Fetching repositories for user: '' @ username], Request GetAuthenticated,
                    Log [''Fetching repositories for another user (public only)...''],
                    Request (PaginateListForUser username ''all'' 100),
                    Log [''Found '' @ show_nat (length repos) @ '' repositories'']],
                   Inr repos))))"
  by (simp add: getUserRepos_def Let_def split: sum.splits)

lemma requests_of_catch:
  "requests_of (fst (getUserRepos_catch fx e)) = requests_of fx"
  by (simp add: getUserRepos_catch_def requests_of_def)

lemma csv_paths_of_catch:
  "csv_paths_of (fst (getUserRepos_catch fx e)) = csv_paths_of fx"
  by (simp add: getUserRepos_catch_def csv_paths_of_def)

lemma csv_paths_of_getUserRepos: "csv_paths_of (fst (getUserRepos octo username)) = []"
  by (simp add: getUserRepos_cases csv_paths_of_catch split: sum.splits)
     (simp add: csv_paths_of_def)

lemma getUserRepos_failure:
  assumes "users_getAuthenticated octo = Inl e
         \<or> (\<exists>u. users_getAuthenticated octo = Inr u
              \<and> (if toLowerCase (login u) = toLowerCase username
                  then paginate_listForAuthenticatedUser octo ''all'' ''owner'' ''updated'' 100
                  else paginate_listForUser octo username ''all'' 100) = Inl e)"
  shows "\<exists>fx. getUserRepos octo username = getUserRepos_catch fx e
            \<and> (\<forall>args. Error args \<notin> set fx) \<and> csv_paths_of fx = []"
proof (rule exI[of _
    "[Log [''Fetching repositories for user: '' @ username], Request GetAuthenticated]
     @ (case users_getAuthenticated octo of
          Inl e' \<Rightarrow> []
        | Inr u \<Rightarrow>
            if toLowerCase (login u) = toLowerCase username
            then [Log [''Fetching your own repositories (including private ones)...''],
                  Request (PaginateListForAuthenticatedUser ''all'' ''owner'' ''updated'' 100)]
            else [Log [''Fetching repositories for another user (public only)...''],
                  Request (PaginateListForUser username ''all'' 100)])"])
  show "getUserRepos octo username
      = getUserRepos_catch
          ([Log [''Fetching repositories for user: '' @ username], Request GetAuthenticated]
           @ (case users_getAuthenticated octo of
                Inl e' \<Rightarrow> []
              | Inr u \<Rightarrow>
                  if toLowerCase (login u) = toLowerCase username
                  then [Log [''Fetching your own repositories (including private ones)...''],
                        Request (PaginateListForAuthenticatedUser ''all'' ''owner'' ''updated'' 100)]
                  else [Log [''Fetching repositories for another user (public only)...''],
                        Request (PaginateListForUser username ''all'' 100)])) e
    \<and> (\<forall>args. Error args
           \<notin> set ([Log [''Fetching repositories for user: '' @ username], Request GetAuthenticated]
           @ (case users_getAuthenticated octo of
                Inl e' \<Rightarrow> []
              | Inr u \<Rightarrow>
                  if toLowerCase (login u) = toLowerCase username
                  then [Log [''Fetching your own repositories (including private ones)...''],
                        Request (PaginateListForAuthenticatedUser ''all'' ''owner'' ''updated'' 100)]
                  else [Log [''Fetching repositories for another user (public only)...''],
                        Request (PaginateListForUser username ''all'' 100)])))
    \<and> csv_paths_of ([Log [''Fetching repositories for user: '' @ username], Request GetAuthenticated]
           @ (case users_getAuthenticated octo of
                Inl e' \<Rightarrow> []
              | Inr u \<Rightarrow>
                  if toLowerCase (login u) = toLowerCase username
                  then [Log [''Fetching your own repositories (including private ones)...''],
                        Request (PaginateListForAuthenticatedUser ''all'' ''owner'' ''updated'' 100)]
                  else [Log [''Fetching repositories for another user (public only)...''],
                        Request (PaginateListForUser username ''all'' 100)])) = []"
    using assms
    by (auto simp: getUserRepos_cases csv_paths_of_def split: if_splits)
qed

lemma run_failure:
  assumes "username \<noteq> []" and "getUserRepos octo username = getUserRepos_catch fx e"
    and "csv_paths_of fx = []"
  shows "\<exists>fx' tr. run octo delay now (Some username) outputFile = Some (fx', tr, 1)
           \<and> csv_paths_of fx' = []"
proof (cases "users_getAuthenticated octo")
  case (Inl e')
  with assms(1) show ?thesis
    by (simp add: run_def run_catch_def csv_paths_of_def)
next
  case (Inr u)
  have "processRepositories octo delay username
      = Some (fst (getUserRepos_catch fx e), [], Inl e)"
    by (simp add: processRepositories_def assms(2) getUserRepos_catch_def)
  with Inr assms(1,3) show ?thesis
    by (simp add: run_def run_catch_def Let_def)
       (simp add: csv_paths_of_def getUserRepos_catch_def)
qed

lemma slice_take: "0 \<le> n \<Longrightarrow> slice xs 0 n = take (nat n) xs"
  by (auto simp: slice_def Let_def min_def)

lemma replace_colons_dots_append:
  "replace_colons_dots (xs @ ys) = replace_colons_dots xs @ replace_colons_dots ys"
  by (simp add: replace_colons_dots_def)

lemma replace_colons_dots_Cons:
  "replace_colons_dots (c # xs)
     = (if c = CHR '':'' \<or> c = CHR ''.'' then CHR ''-'' else c) # replace_colons_dots xs"
  "replace_colons_dots [] = []"
  by (simp_all add: replace_colons_dots_def)

lemma replace_colons_dots_id:
  "\<forall>c \<in> set xs. c \<noteq> CHR '':'' \<and> c \<noteq> CHR ''.'' \<Longrightarrow> replace_colons_dots xs = xs"
  by (induction xs) (simp_all add: replace_colons_dots_def)

lemma csv_paths_of_append: "csv_paths_of (xs @ ys) = csv_paths_of xs @ csv_paths_of ys"
  by (simp add: csv_paths_of_def)

lemma csv_paths_of_simps:
  "csv_paths_of [] = []"
  "csv_paths_of (Log a # fx) = csv_paths_of fx"
  "csv_paths_of (Warn a # fx) = csv_paths_of fx"
  "csv_paths_of (Error a # fx) = csv_paths_of fx"
  "csv_paths_of (Request c # fx) = csv_paths_of fx"
  "csv_paths_of (WriteCsv p rs # fx) = p # csv_paths_of fx"
  by (simp_all add: csv_paths_of_def)

lemma csv_paths_of_summary: "csv_paths_of (summary own username repositories outputPath) = []"
  by (simp add: summary_def csv_paths_of_def)

lemma run_after_listing:
  assumes "username \<noteq> []" "users_getAuthenticated octo = Inr u"
    and "processRepositories octo delay username = Some (fx1, tr1, Inr repositories)"
  shows "run octo delay now (Some username) outputFile =
     (case writeRecords octo (outputPath_of now username outputFile) repositories of
        Inl e \<Rightarrow>
          run_catch ([Log [''Starting GitHub repository analysis...''], Request GetAuthenticated]
                     @ fx1) tr1 e
      | Inr x \<Rightarrow>
          Some ([Log [''Starting GitHub repository analysis...''], Request GetAuthenticated] @ fx1
                @ [WriteCsv (outputPath_of now username outputFile) repositories,
                   Log [''CSV file generated: '' @ outputPath_of now username outputFile]]
                @ summary (toLowerCase (login u) = toLowerCase username) username repositories
                    (outputPath_of now username outputFile),
                tr1, 0))"
  using assms by (simp add: run_def Let_def generateCSV_def split: sum.splits)

lemma csv_paths_of_processRepositories:
  assumes "processRepositories octo delay username = Some (fx1, tr1, r)"
  shows "csv_paths_of fx1 = []"
proof (cases "getUserRepos octo username")
  case (Pair fx res)
  from csv_paths_of_getUserRepos[of octo username] Pair have fx: "csv_paths_of fx = []" by simp
  show ?thesis
  proof (cases res)
    case (Inl e)
    with assms Pair fx show ?thesis by (simp add: processRepositories_def)
  next
    case (Inr repos)
    with assms Pair have "fx1 = fx @ [Log [''Processing repository details...''],
                           Log [''Using concurrency limit: '' @ show_int CONCURRENCY_LIMIT]]"
      by (auto simp: processRepositories_def Let_def split: option.splits)
    with fx show ?thesis by (simp add: csv_paths_of_append) (simp add: csv_paths_of_def)
  qed
qed

lemma run_success_paths:
  assumes "run octo delay now (Some username) outputFile = Some (fx, tr, 0)"
  shows "csv_paths_of fx = [outputPath_of now username outputFile]"
proof -
  from assms have ne: "username \<noteq> []" by (auto simp: run_def split: if_splits)
  from assms ne obtain u where u: "users_getAuthenticated octo = Inr u"
    by (cases "users_getAuthenticated octo") (auto simp: run_def run_catch_def)
  from assms ne u obtain fx1 tr1 res where
    p: "processRepositories octo delay username = Some (fx1, tr1, res)"
    by (cases "processRepositories octo delay username") (auto simp: run_def Let_def)
  from assms ne u p obtain repositories where res: "res = Inr repositories"
    by (cases res) (auto simp: run_def run_catch_def Let_def)
  note ral = run_after_listing[OF ne u p[unfolded res], of now outputFile]
  from assms ral obtain x where
    w: "writeRecords octo (outputPath_of now username outputFile) repositories = Inr x"
    by (cases "writeRecords octo (outputPath_of now username outputFile) repositories")
       (auto simp: run_catch_def)
  from assms ral w have "fx =
      [Log [''Starting GitHub repository analysis...''], Request GetAuthenticated] @ fx1
      @ [WriteCsv (outputPath_of now username outputFile) repositories,
         Log [''CSV file generated: '' @ outputPath_of now username outputFile]]
      @ summary (toLowerCase (login u) = toLowerCase username) username repositories
          (outputPath_of now username outputFile)"
    by simp
  then show ?thesis
    by (simp add: csv_paths_of_append csv_paths_of_simps csv_paths_of_summary
          csv_paths_of_processRepositories[OF p])
qed

lemma run_succeeds:
  assumes "username \<noteq> []" "users_getAuthenticated octo = Inr u"
    and "getUserRepos octo username = (fx0, Inr repos)"
    and "\<And>path records. writeRecords octo path records = Inr ()"
  shows "\<exists>fx tr. run octo delay now (Some username) outputFile = Some (fx, tr, 0)"
proof -
  from processRepositories_records[OF assms(3), of delay] obtain fx1 tr1 records where
    "processRepositories octo delay username = Some (fx1, tr1, Inr records)" by blast
  from run_after_listing[OF assms(1,2) this, of now outputFile] assms(4)
  show ?thesis by simp
qed


subsection \<open>Claims\<close>

text \<open>
  C1. For every list of items, every limit \<open>C \<ge> 1\<close> and every transform whose call on each
  item fulfils, \<^verbatim>\<open>processConcurrently\<close> returns, and returns as many results as there
  are items, the result at position \<open>i\<close> being the output of the transform for the item at
  position \<open>i\<close> and the index \<open>i\<close>; this holds for every order in which the calls complete
  (every \<open>delay\<close>).
\<close>

theorem processConcurrently_results_in_input_order:
  assumes "1 \<le> C"
    and "\<And>k. k < length items \<Longrightarrow> \<exists>v. processor (items ! k) (int k) = Inr v"
  shows "\<exists>tr results. processConcurrently delay items processor C = Some (tr, Inr results)
           \<and> length results = length items
           \<and> (\<forall>i < length items. processor (items ! i) (int i) = Inr (results ! i))"
proof -
  define f where "f k = projr (processor (items ! k) (int k))" for k
  have f: "processor (items ! k) (int k) = Inr (f k)" if "k < length items" for k
    using assms(2)[OF that] by (auto simp: f_def)
  from assms(1) have c: "0 < nat C" "C = int (nat C)" by simp_all
  from loop_fulfilled[of "nat C" items processor f delay 0 "[]" "[]", OF c(1) f]
  obtain tr where "processConcurrently delay items processor C
      = Some (tr, Inr (map f [0..<length items]))"
    using c(2) by (auto simp: processConcurrently_def)
  moreover have "\<forall>i < length items. processor (items ! i) (int i) = Inr (map f [0..<length items] ! i)"
    using f by simp
  ultimately show ?thesis by (metis length_map length_upt minus_nat.diff_0)
qed

theorem processConcurrently_results_in_input_order_witness:
  "\<exists>tr. processConcurrently (\<lambda>k. nat (5 - k)) [10, 20, 30 :: nat]
           (\<lambda>x k. Inr (x + nat k) :: unit + nat) 2 = Some (tr, Inr [10, 21, 32])"
proof -
  from processConcurrently_results_in_input_order
         [of 2 "[10, 20, 30 :: nat]" "\<lambda>x k. Inr (x + nat k) :: unit + nat" "\<lambda>k. nat (5 - k)"]
  obtain tr results where r:
    "processConcurrently (\<lambda>k. nat (5 - k)) [10, 20, 30 :: nat]
       (\<lambda>x k. Inr (x + nat k) :: unit + nat) 2 = Some (tr, Inr results)"
    "length results = 3"
    "\<forall>i < 3. (Inr ([10, 20, 30 :: nat] ! i + i) :: unit + nat) = Inr (results ! i)"
    by auto
  from r(3) have "results ! 0 = 10" "results ! 1 = 21" "results ! 2 = 32"
    by (auto simp: numeral_3_eq_3 numeral_2_eq_2)
  with r(2) have "results = [10, 21, 32]"
    by (auto simp: numeral_3_eq_3 numeral_2_eq_2 length_Suc_conv)
  with r(1) show ?thesis by blast
qed

text \<open>
  C2. For every list of items, every transform and every limit \<open>C \<ge> 1\<close>, a run of
  \<^verbatim>\<open>processConcurrently\<close> ends, and after any number \<open>n\<close> of its events at most \<open>C\<close> calls
  of the transform are outstanding; every batch has at most \<open>C\<close> items, and when a batch
  starts no call of an earlier batch is outstanding.
\<close>

theorem processConcurrently_in_flight_bound:
  assumes "1 \<le> C"
  shows "\<exists>tr r. processConcurrently delay items processor C = Some (tr, r)
     \<and> (\<forall>n. in_flight (take n tr) \<le> C)
     \<and> (\<forall>n b. n < length tr \<and> tr ! n = Chunk b \<longrightarrow>
            int (length b) \<le> C \<and> in_flight (take n tr) = 0)"
proof -
  from processConcurrently_general[OF assms, of delay items processor]
  obtain tr r where tr: "processConcurrently delay items processor C = Some (tr, r)"
    "within_limit C 0 tr" by blast
  from within_limit_take[OF tr(2)] have
    "\<And>n. in_flight (take n tr) \<le> C"
    "\<And>n b. n < length tr \<and> tr ! n = Chunk b \<longrightarrow>
            int (length b) \<le> C \<and> in_flight (take n tr) = 0"
    by simp_all
  with tr(1) show ?thesis by blast
qed

text \<open>C2 at three items and the limit 2, the calls completing in reverse order.\<close>

theorem processConcurrently_in_flight_bound_witness:
  "\<exists>tr r. processConcurrently (\<lambda>k. nat (5 - k)) [10, 20, 30 :: nat]
             (\<lambda>x k. Inr (x + nat k) :: unit + nat) 2 = Some (tr, r)
     \<and> (\<forall>n. in_flight (take n tr) \<le> 2)"
proof -
  have "(1::int) \<le> 2" by simp
  from processConcurrently_in_flight_bound[OF this, of "\<lambda>k. nat (5 - k)" "[10, 20, 30 :: nat]"
         "\<lambda>x k. Inr (x + nat k) :: unit + nat"]
  show ?thesis by blast
qed

text \<open>
  C3 as stated fails: with one item and the limit 0 the loop takes the empty batch again and
  again, \<open>i\<close> stays 0, and the function never returns; the limit is neither rejected nor
  clamped to 1.
\<close>

theorem processConcurrently_limit_0_counterexample:
  "processConcurrently (\<lambda>k. 0) [CHR ''a''] (\<lambda>x k. Inr x :: unit + char) 0 = None"
proof (rule ccontr)
  assume "processConcurrently (\<lambda>k. 0) [CHR ''a''] (\<lambda>x k. Inr x :: unit + char) 0 \<noteq> None"
  then obtain y where
    "processConcurrently_loop (\<lambda>k. 0) [CHR ''a''] (\<lambda>x k. Inr x :: unit + char) 0 0 [] [] = Some y"
    by (auto simp: processConcurrently_def)
  from loop_nonpositive[OF this] show False by simp
qed

text \<open>
  C3, amended. For every non-empty list and every limit \<open>C \<le> 0\<close>,
  \<^verbatim>\<open>processConcurrently\<close> does not validate the limit and never returns a list of results:
  when \<open>C = 0\<close>, or when the transform fulfils on every item, it never returns at all.
\<close>

theorem processConcurrently_nonpositive_limit:
  assumes "C \<le> 0" "items \<noteq> []"
  shows "(\<forall>tr rs. processConcurrently delay items processor C \<noteq> Some (tr, Inr rs))
       \<and> (C = 0 \<or> (\<forall>x \<in> set items. \<forall>k. \<exists>v. processor x k = Inr v)
            \<longrightarrow> processConcurrently delay items processor C = None)"
proof -
  have P: "C < 0 \<and> (\<exists>e x k. snd y = Inl e \<and> x \<in> set items \<and> processor x k = Inl e)"
    if "processConcurrently delay items processor C = Some y" for y
    using loop_nonpositive[OF that[unfolded processConcurrently_def]] assms by simp
  have "processConcurrently delay items processor C \<noteq> Some (tr, Inr rs)" for tr rs
    using P[of "(tr, Inr rs)"] by auto
  moreover have "processConcurrently delay items processor C = None"
    if "C = 0 \<or> (\<forall>x \<in> set items. \<forall>k. \<exists>v. processor x k = Inr v)"
  proof (rule ccontr)
    assume "processConcurrently delay items processor C \<noteq> None"
    then obtain y where "processConcurrently delay items processor C = Some y" by auto
    from P[OF this] that show False by (metis Inl_Inr_False less_irrefl)
  qed
  ultimately show ?thesis by blast
qed

text \<open>C3, amended, at two items and the limit \<open>-1\<close>.\<close>

theorem processConcurrently_nonpositive_limit_witness:
  "processConcurrently (\<lambda>k. 0) [1, 2 :: nat] (\<lambda>x k. Inr x :: unit + nat) (- 1) = None"
  using processConcurrently_nonpositive_limit
          [of "- 1" "[1, 2 :: nat]" "\<lambda>k. 0" "\<lambda>x k. Inr x :: unit + nat"]
  by simp

text \<open>
  C5. For every list of \<open>N\<close> items, every transform and every limit \<open>C \<ge> N\<close>, the run with
  the limit \<open>C\<close> and the run with the limit 1 both end, whatever the completion orders
  \<open>delay\<close> and \<open>delay'\<close>; one returns a list of results exactly when the other does, and then
  the two lists are equal. When the transform fulfils on every item both return the same
  list of \<open>N\<close> results.
\<close>

theorem processConcurrently_limit_affects_timing_only:
  assumes "int (length items) \<le> C"
  shows "\<exists>t1 r1 t2 r2.
           processConcurrently delay items processor C = Some (t1, r1)
         \<and> processConcurrently delay' items processor 1 = Some (t2, r2)
         \<and> (\<forall>rs. r1 = Inr rs \<longleftrightarrow> r2 = Inr rs)
         \<and> ((\<forall>k < length items. \<exists>v. processor (items ! k) (int k) = Inr v)
              \<longrightarrow> (\<exists>rs. r1 = Inr rs \<and> r2 = Inr rs \<and> length rs = length items))"
proof (cases "items = []")
  case True
  then show ?thesis by (simp add: processConcurrently_empty)
next
  case False
  with assms have C: "1 \<le> C" by (cases items) auto
  have one: "(1::int) \<le> 1" by simp
  from processConcurrently_general[OF C, of delay items processor]
  obtain t1 r1 where r1: "processConcurrently delay items processor C = Some (t1, r1)" by blast
  from processConcurrently_general[OF one, of delay' items processor]
  obtain t2 r2 where r2: "processConcurrently delay' items processor 1 = Some (t2, r2)" by blast
  have a: "r2 = Inr rs" if "r1 = Inr rs" for rs
    using processConcurrently_same_results[OF C one, of delay items processor t1 rs delay']
      r1 r2 that by auto
  have b: "r1 = Inr rs" if "r2 = Inr rs" for rs
    using processConcurrently_same_results[OF one C, of delay' items processor t2 rs delay]
      r1 r2 that by auto
  have c: "\<exists>rs. r1 = Inr rs \<and> r2 = Inr rs \<and> length rs = length items"
    if ful: "\<forall>k < length items. \<exists>v. processor (items ! k) (int k) = Inr v"
  proof -
    define f where "f k = projr (processor (items ! k) (int k))" for k
    have f: "processor (items ! k) (int k) = Inr (f k)" if "k < length items" for k
      using ful that by (auto simp: f_def)
    have "\<exists>tr. processConcurrently delay items processor C
               = Some (tr, Inr (map f [0..<length items]))
             \<and> chunks_of tr = chop (nat C) items"
      by (rule processConcurrently_fulfilled) (fact C, rule f)
    with r1 have "r1 = Inr (map f [0..<length items])" by auto
    with a show ?thesis by auto
  qed
  show ?thesis
  proof (intro exI conjI)
    show "processConcurrently delay items processor C = Some (t1, r1)" by (rule r1)
    show "processConcurrently delay' items processor 1 = Some (t2, r2)" by (rule r2)
    show "\<forall>rs. r1 = Inr rs \<longleftrightarrow> r2 = Inr rs" using a b by blast
    show "(\<forall>k < length items. \<exists>v. processor (items ! k) (int k) = Inr v)
              \<longrightarrow> (\<exists>rs. r1 = Inr rs \<and> r2 = Inr rs \<and> length rs = length items)"
      using c by blast
  qed
qed

text \<open>C5 at three items, the limit 7 against the limit 1, with different completion
  orders.\<close>

theorem processConcurrently_limit_affects_timing_only_witness:
  "\<exists>t1 t2. processConcurrently (\<lambda>k. nat (5 - k)) [10, 20, 30 :: nat]
              (\<lambda>x k. Inr (x + nat k) :: unit + nat) 7 = Some (t1, Inr [10, 21, 32])
         \<and> processConcurrently (\<lambda>k. 0) [10, 20, 30 :: nat]
              (\<lambda>x k. Inr (x + nat k) :: unit + nat) 1 = Some (t2, Inr [10, 21, 32])"
proof -
  have one: "processConcurrently (\<lambda>k. 0) [10, 20, 30 :: nat]
               (\<lambda>x k. Inr (x + nat k) :: unit + nat) 1
     = Some ([Chunk [10], Invoke 0, Settled 0, Chunk [20], Invoke 1, Settled 1,
              Chunk [30], Invoke 2, Settled 2], Inr [10, 21, 32])"
    by code_simp
  from processConcurrently_limit_affects_timing_only
         [of "[10, 20, 30 :: nat]" 7 "\<lambda>k. nat (5 - k)"
             "\<lambda>x k. Inr (x + nat k) :: unit + nat" "\<lambda>k. 0"]
  show ?thesis unfolding one by auto
qed

text \<open>
  C6. For every list of \<open>N\<close> items, every limit \<open>C \<ge> 1\<close> and every transform that fulfils on
  every item, the batches of a run are non-empty, of at most \<open>C\<close> items each, their
  concatenation is the input, and there are \<open>\<lceil>N / C\<rceil>\<close> of them; 25 items with the limit 10
  are processed in three batches of 10, 10 and 5 items.
\<close>

theorem processConcurrently_chunks:
  assumes "1 \<le> C"
    and "\<And>k. k < length items \<Longrightarrow> \<exists>v. processor (items ! k) (int k) = Inr v"
  shows "\<exists>tr results. processConcurrently delay items processor C = Some (tr, Inr results)
     \<and> concat (chunks_of tr) = items
     \<and> (\<forall>b \<in> set (chunks_of tr). b \<noteq> [] \<and> int (length b) \<le> C)
     \<and> int (length (chunks_of tr)) = \<lceil>real (length items) / real_of_int C\<rceil>
     \<and> (length items = 25 \<and> C = 10 \<longrightarrow> map length (chunks_of tr) = [10, 10, 5])"
proof -
  define f where "f k = projr (processor (items ! k) (int k))" for k
  have f: "processor (items ! k) (int k) = Inr (f k)" if "k < length items" for k
    using assms(2)[OF that] by (auto simp: f_def)
  from assms(1) have c: "0 < nat C" "real_of_int C = real (nat C)" by simp_all
  have "\<exists>tr. processConcurrently delay items processor C
               = Some (tr, Inr (map f [0..<length items]))
             \<and> chunks_of tr = chop (nat C) items"
    by (rule processConcurrently_fulfilled) (fact assms(1), rule f)
  then obtain tr where tr:
    "processConcurrently delay items processor C = Some (tr, Inr (map f [0..<length items]))"
    "chunks_of tr = chop (nat C) items" by blast
  have 1: "concat (chunks_of tr) = items"
    unfolding tr(2) by (rule concat_chop[OF c(1)])
  have 2: "\<forall>b \<in> set (chunks_of tr). b \<noteq> [] \<and> int (length b) \<le> C"
  proof
    fix b
    assume "b \<in> set (chunks_of tr)"
    then have "b \<in> set (chop (nat C) items)" by (simp only: tr(2))
    from chop_bound[OF c(1) this] have "b \<noteq> []" "length b \<le> nat C" by simp_all
    then show "b \<noteq> [] \<and> int (length b) \<le> C" using assms(1) by linarith
  qed
  have 3: "int (length (chunks_of tr)) = \<lceil>real (length items) / real_of_int C\<rceil>"
    unfolding tr(2) c(2) by (rule length_chop[OF c(1)])
  have 4: "map length (chunks_of tr) = [10, 10, 5]" if "length items = 25" "C = 10"
  proof -
    from that have "nat C = 10" by simp
    with chop_sizes[OF c(1), of items] that(1)
    have "map length (chop (nat C) items) = replicate 2 10 @ [5]" by simp
    then show ?thesis unfolding tr(2) by (simp add: numeral_2_eq_2)
  qed
  show ?thesis
  proof (intro exI conjI)
    show "processConcurrently delay items processor C
            = Some (tr, Inr (map f [0..<length items]))" by (rule tr(1))
    show "concat (chunks_of tr) = items" by (rule 1)
    show "\<forall>b \<in> set (chunks_of tr). b \<noteq> [] \<and> int (length b) \<le> C" by (rule 2)
    show "int (length (chunks_of tr)) = \<lceil>real (length items) / real_of_int C\<rceil>" by (rule 3)
    show "length items = 25 \<and> C = 10 \<longrightarrow> map length (chunks_of tr) = [10, 10, 5]"
      using 4 by blast
  qed
qed

text \<open>C6 at 25 items and the limit 10.\<close>

theorem processConcurrently_chunks_witness:
  "\<exists>tr results. processConcurrently (\<lambda>k. 0) (replicate 25 CHR ''r'')
                   (\<lambda>x k. Inr k :: unit + int) 10 = Some (tr, Inr results)
     \<and> map length (chunks_of tr) = [10, 10, 5]
     \<and> concat (chunks_of tr) = replicate 25 CHR ''r''"
proof -
  have "\<exists>v. (Inr (int k) :: unit + int) = Inr v" for k by simp
  with processConcurrently_chunks
         [of 10 "replicate 25 CHR ''r''" "\<lambda>x k. Inr k :: unit + int" "\<lambda>k. 0"]
  show ?thesis by auto
qed

text \<open>
  C4. When a remote step of the enricher fails with an error \<open>e\<close> (the repository detail, the
  latest commit, or, with the flag on, the paginated commit list), \<^verbatim>\<open>getRepoCommitInfo\<close>
  does not raise: it warns with the message of \<open>e\<close> and returns the record with
  \<open>commitCount = 0\<close> and \<open>lastCommitDate = null\<close>. And whenever the listing returns \<open>N\<close>
  repositories, \<^verbatim>\<open>processRepositories\<close> returns \<open>N\<close> records, the record at position \<open>i\<close>
  carrying the enrichment of the repository at position \<open>i\<close>.
\<close>

theorem getRepoCommitInfo_failure_isolated:
  assumes "repos_get octo owner repo = Inl e
         \<or> (\<exists>repoInfo. repos_get octo owner repo = Inr repoInfo
              \<and> (repos_listCommits octo owner repo (default_branch repoInfo) 1 = Inl e
                 \<or> (\<exists>commits.
                       repos_listCommits octo owner repo (default_branch repoInfo) 1 = Inr commits
                     \<and> flag
                     \<and> paginate_listCommits octo owner repo (default_branch repoInfo) 100 = Inl e)))"
  shows "snd (getRepoCommitInfo_flag flag octo owner repo) = \<lparr>commitCount = 0, lastCommitDate = None\<rparr>
       \<and> last (fst (getRepoCommitInfo_flag flag octo owner repo))
           = Warn [''Could not fetch commit info for '' @ owner @ ''/'' @ repo @ '':'', message e]
       \<and> (\<forall>delay username fx repos.
             getUserRepos octo username = (fx, Inr repos) \<longrightarrow>
               (\<exists>fx' tr records.
                   processRepositories octo delay username = Some (fx', tr, Inr records)
                 \<and> length records = length repos
                 \<and> (\<forall>i < length repos.
                       rd_fullName (records ! i) = full_name (repos ! i)
                     \<and> rd_commitCount (records ! i)
                         = commitCount (snd (getRepoCommitInfo octo (owner_login (repos ! i))
                                               (name (repos ! i))))
                     \<and> rd_lastCommitDate (records ! i)
                         = lastCommitDate (snd (getRepoCommitInfo octo (owner_login (repos ! i))
                                                  (name (repos ! i)))))))"
proof -
  from getRepoCommitInfo_flag_failure[OF assms] obtain fx0 where
    c: "getRepoCommitInfo_flag flag octo owner repo = getRepoCommitInfo_catch fx0 owner repo e" ..
  have 1: "snd (getRepoCommitInfo_flag flag octo owner repo)
      = \<lparr>commitCount = 0, lastCommitDate = None\<rparr>"
    by (simp add: c getRepoCommitInfo_catch_def)
  have 2: "last (fst (getRepoCommitInfo_flag flag octo owner repo))
      = Warn [''Could not fetch commit info for '' @ owner @ ''/'' @ repo @ '':'', message e]"
    by (simp add: c getRepoCommitInfo_catch_def)
  have 3: "\<exists>fx' tr records.
                   processRepositories octo delay username = Some (fx', tr, Inr records)
                 \<and> length records = length repos
                 \<and> (\<forall>i < length repos.
                       rd_fullName (records ! i) = full_name (repos ! i)
                     \<and> rd_commitCount (records ! i)
                         = commitCount (snd (getRepoCommitInfo octo (owner_login (repos ! i))
                                               (name (repos ! i))))
                     \<and> rd_lastCommitDate (records ! i)
                         = lastCommitDate (snd (getRepoCommitInfo octo (owner_login (repos ! i))
                                                  (name (repos ! i)))))"
    if "getUserRepos octo username = (fx, Inr repos)" for delay username fx repos
  proof -
    from processRepositories_records[OF that, of delay] obtain fx' tr records where r:
      "processRepositories octo delay username = Some (fx', tr, Inr records)"
      "length records = length repos"
      "\<forall>i < length repos. processRepo octo (repos ! i) (int i) = Inr (records ! i)"
      by blast
    have "rd_fullName (records ! i) = full_name (repos ! i)
        \<and> rd_commitCount (records ! i)
            = commitCount (snd (getRepoCommitInfo octo (owner_login (repos ! i)) (name (repos ! i))))
        \<and> rd_lastCommitDate (records ! i)
            = lastCommitDate (snd (getRepoCommitInfo octo (owner_login (repos ! i)) (name (repos ! i))))"
      if "i < length repos" for i
      using processRepo_fields[of octo "repos ! i" "int i" "records ! i"] r(3) that by simp
    with r(1,2) show ?thesis by blast
  qed
  from 1 2 3 show ?thesis by blast
qed

text \<open>C4 at the example service: the detail of \<open>a\<close> fails with 404, and the batch of two
  repositories still returns two records.\<close>

theorem getRepoCommitInfo_failure_isolated_witness:
  "getRepoCommitInfo example_octokit ''octocat'' ''a''
     = ([Request (ReposGet ''octocat'' ''a''),
         Warn [''Could not fetch commit info for octocat/a:'', ''Not Found'']],
        \<lparr>commitCount = 0, lastCommitDate = None\<rparr>)
   \<and> (\<exists>fx' tr records.
         processRepositories example_octokit (\<lambda>k. 0) ''octocat'' = Some (fx', tr, Inr records)
       \<and> length records = 2
       \<and> rd_fullName (records ! 0) = ''octocat/a''
       \<and> rd_commitCount (records ! 0) = 0 \<and> rd_lastCommitDate (records ! 0) = None)"
proof -
  have g: "getRepoCommitInfo example_octokit ''octocat'' ''a''
     = ([Request (ReposGet ''octocat'' ''a''),
         Warn [''Could not fetch commit info for octocat/a:'', ''Not Found'']],
        \<lparr>commitCount = 0, lastCommitDate = None\<rparr>)"
    by code_simp
  have h: "repos_get example_octokit ''octocat'' ''a'' = Inl not_found"
    by (simp add: example_octokit_def)
  from getRepoCommitInfo_failure_isolated
         [of example_octokit "''octocat''" "''a''" not_found False]
       h getUserRepos_example
  obtain fx' tr records where r:
    "processRepositories example_octokit (\<lambda>k. 0) ''octocat'' = Some (fx', tr, Inr records)"
    "length [example_repo ''a'', example_repo ''b''] = length records"
    "\<forall>i < length [example_repo ''a'', example_repo ''b''].
        rd_fullName (records ! i) = full_name ([example_repo ''a'', example_repo ''b''] ! i)
      \<and> rd_commitCount (records ! i)
          = commitCount (snd (getRepoCommitInfo example_octokit
               (owner_login ([example_repo ''a'', example_repo ''b''] ! i))
               (name ([example_repo ''a'', example_repo ''b''] ! i))))
      \<and> rd_lastCommitDate (records ! i)
          = lastCommitDate (snd (getRepoCommitInfo example_octokit
               (owner_login ([example_repo ''a'', example_repo ''b''] ! i))
               (name ([example_repo ''a'', example_repo ''b''] ! i))))"
    by (metis (no_types, lifting))
  from r(3) have "rd_fullName (records ! 0) = ''octocat/a''
       \<and> rd_commitCount (records ! 0) = 0 \<and> rd_lastCommitDate (records ! 0) = None"
    by (simp add: example_repo_def g)
  with r(1,2) g show ?thesis by auto
qed

text \<open>
  C7. When the remote lookups of a repository all succeed, \<open>lastCommitDate\<close> is the committer
  date of the first commit returned for the default branch, or \<open>null\<close> when none is
  returned; \<open>commitCount\<close> is the number of commits of the paginated list when the flag is
  on, and \<open>-1\<close> otherwise, which no count equals. The flag \<^verbatim>\<open>FETCH_COMMIT_COUNT\<close> is off, so
  the method returns \<open>-1\<close>.
\<close>

theorem getRepoCommitInfo_success:
  assumes "repos_get octo owner repo = Inr repoInfo"
    and "repos_listCommits octo owner repo (default_branch repoInfo) 1 = Inr commits"
    and "flag \<longrightarrow> paginate_listCommits octo owner repo (default_branch repoInfo) 100 = Inr allCommits"
  shows "lastCommitDate (snd (getRepoCommitInfo_flag flag octo owner repo))
           = (case commits of [] \<Rightarrow> None | c # _ \<Rightarrow> Some (committer_date c))
       \<and> commitCount (snd (getRepoCommitInfo_flag flag octo owner repo))
           = (if flag then int (length allCommits) else - 1)
       \<and> (flag \<longrightarrow> 0 \<le> commitCount (snd (getRepoCommitInfo_flag flag octo owner repo)))
       \<and> \<not> FETCH_COMMIT_COUNT
       \<and> getRepoCommitInfo octo owner repo = getRepoCommitInfo_flag False octo owner repo
       \<and> commitCount (snd (getRepoCommitInfo octo owner repo)) = - 1"
  using assms
  by (cases flag) (simp_all add: getRepoCommitInfo_flag_cases getRepoCommitInfo_def FETCH_COMMIT_COUNT_def)

text \<open>C7 at the repository \<open>b\<close> of the example service, with the flag on and with the
  flag off.\<close>

theorem getRepoCommitInfo_success_witness:
  "getRepoCommitInfo_flag True example_octokit ''octocat'' ''b''
     = ([Request (ReposGet ''octocat'' ''b''), Request (ListCommits ''octocat'' ''b'' ''main'' 1),
         Request (PaginateListCommits ''octocat'' ''b'' ''main'' 100)],
        \<lparr>commitCount = 2, lastCommitDate = Some ''2024-05-01T10:00:00Z''\<rparr>)
   \<and> commitCount (snd (getRepoCommitInfo example_octokit ''octocat'' ''b'')) = - 1
   \<and> lastCommitDate (snd (getRepoCommitInfo example_octokit ''octocat'' ''b''))
       = Some ''2024-05-01T10:00:00Z''"
  using getRepoCommitInfo_success
          [of example_octokit "''octocat''" "''b''" "\<lparr>default_branch = ''main''\<rparr>"
              "[\<lparr>committer_date = ''2024-05-01T10:00:00Z''\<rparr>]" True
              "[\<lparr>committer_date = ''2024-05-01T10:00:00Z''\<rparr>,
                \<lparr>committer_date = ''2024-04-01T10:00:00Z''\<rparr>]"]
        getRepoCommitInfo_success
          [of example_octokit "''octocat''" "''b''" "\<lparr>default_branch = ''main''\<rparr>"
              "[\<lparr>committer_date = ''2024-05-01T10:00:00Z''\<rparr>]" False "[]"]
  by (simp add: example_octokit_def getRepoCommitInfo_flag_cases)

text \<open>
  C8 as stated fails: on a network failure (an error without status) \<^verbatim>\<open>getUserRepos\<close> logs
  the message only, with no classification hint, before it throws the error again.
\<close>

theorem getUserRepos_network_failure_counterexample:
  "getUserRepos (example_octokit\<lparr>users_getAuthenticated := Inl network_down\<rparr>) ''octocat''
     = ([Log [''Fetching repositories for user: octocat''], Request GetAuthenticated,
         Error [''Error fetching repositories:'', ''getaddrinfo ENOTFOUND api.github.com'']],
        Inl network_down)"
  by code_simp

text \<open>
  C8, amended. For every error \<open>e\<close> raised while fetching the repository list,
  \<^verbatim>\<open>getUserRepos\<close> logs the message of \<open>e\<close>, followed by a classification hint when the
  status of \<open>e\<close> is 404 or 401 and by nothing otherwise, and throws \<open>e\<close> again; \<^verbatim>\<open>run\<close> then
  exits with code 1 and writes no CSV file.
\<close>

theorem getUserRepos_rethrows_listing_errors:
  assumes "users_getAuthenticated octo = Inl e
         \<or> (\<exists>u. users_getAuthenticated octo = Inr u
              \<and> (if toLowerCase (login u) = toLowerCase username
                  then paginate_listForAuthenticatedUser octo ''all'' ''owner'' ''updated'' 100
                  else paginate_listForUser octo username ''all'' 100) = Inl e)"
  shows "snd (getUserRepos octo username) = Inl e
       \<and> (\<exists>fx. fst (getUserRepos octo username)
                  = fx @ [Error [''Error fetching repositories:'', message e]]
                       @ (if status e = Some 404
                          then [Error [''User not found or you don't have access to their repositories'']]
                          else if status e = Some 401
                          then [Error [''Invalid GitHub token or insufficient permissions'']]
                          else [])
                \<and> (\<forall>args. Error args \<notin> set fx))
       \<and> (username \<noteq> [] \<longrightarrow>
            (\<exists>fx tr. run octo delay now (Some username) outputFile = Some (fx, tr, 1)
                   \<and> csv_paths_of fx = []))"
proof -
  from getUserRepos_failure[OF assms] obtain fx where fx:
    "getUserRepos octo username = getUserRepos_catch fx e"
    "\<forall>args. Error args \<notin> set fx" "csv_paths_of fx = []" by blast
  have 1: "snd (getUserRepos octo username) = Inl e"
    by (simp add: fx(1) getUserRepos_catch_def)
  have 2: "fst (getUserRepos octo username)
                  = fx @ [Error [''Error fetching repositories:'', message e]]
                       @ (if status e = Some 404
                          then [Error [''User not found or you don't have access to their repositories'']]
                          else if status e = Some 401
                          then [Error [''Invalid GitHub token or insufficient permissions'']]
                          else [])"
    by (simp add: fx(1) getUserRepos_catch_def)
  have 3: "\<exists>fx tr. run octo delay now (Some username) outputFile = Some (fx, tr, 1)
                   \<and> csv_paths_of fx = []" if "username \<noteq> []"
    using run_failure[OF that fx(1,3), of delay now outputFile] by blast
  from 1 2 fx(2) 3 show ?thesis by blast
qed

text \<open>C8, amended, at a listing of another user that fails with 404.\<close>

theorem getUserRepos_rethrows_listing_errors_witness:
  "getUserRepos (example_octokit\<lparr>paginate_listForUser := \<lambda>username type per_page. Inl not_found\<rparr>)
      ''hubot''
     = ([Log [''Fetching repositories for user: hubot''], Request GetAuthenticated,
         Log [''Fetching repositories for another user (public only)...''],
         Request (PaginateListForUser ''hubot'' ''all'' 100),
         Error [''Error fetching repositories:'', ''Not Found''],
         Error [''User not found or you don't have access to their repositories'']],
        Inl not_found)
   \<and> (\<exists>fx tr. run (example_octokit\<lparr>paginate_listForUser := \<lambda>username type per_page. Inl not_found\<rparr>)
                  (\<lambda>k. 0) ''2025-08-06T13:15:30.123Z'' (Some ''hubot'') None = Some (fx, tr, 1)
              \<and> csv_paths_of fx = [])"
proof -
  define octo where
    "octo = example_octokit\<lparr>paginate_listForUser := \<lambda>username type per_page. Inl not_found\<rparr>"
  have l: "toLowerCase ''Octocat'' \<noteq> toLowerCase ''hubot''" by code_simp
  have h: "users_getAuthenticated octo = Inl not_found
         \<or> (\<exists>u. users_getAuthenticated octo = Inr u
              \<and> (if toLowerCase (login u) = toLowerCase ''hubot''
                  then paginate_listForAuthenticatedUser octo ''all'' ''owner'' ''updated'' 100
                  else paginate_listForUser octo ''hubot'' ''all'' 100) = Inl not_found)"
    using l by (simp add: octo_def example_octokit_def)
  have g: "getUserRepos octo ''hubot''
     = ([Log [''Fetching repositories for user: hubot''], Request GetAuthenticated,
         Log [''Fetching repositories for another user (public only)...''],
         Request (PaginateListForUser ''hubot'' ''all'' 100),
         Error [''Error fetching repositories:'', ''Not Found''],
         Error [''User not found or you don't have access to their repositories'']],
        Inl not_found)"
    unfolding octo_def by code_simp
  from getUserRepos_rethrows_listing_errors
         [OF h, of "\<lambda>k. 0" "''2025-08-06T13:15:30.123Z''" None] g
  show ?thesis unfolding octo_def by simp
qed

text \<open>
  C9 as stated fails: the timestamp in the default file name stops after the seconds; the
  milliseconds and the \<open>Z\<close> of the ISO 8601 timestamp are not part of it.
\<close>

theorem outputPath_of_default_counterexample:
  "outputPath_of ''2025-08-06T13:15:30.123Z'' ''octocat'' None
     = ''octocat-repositories-2025-08-06T13-15-30.csv''
   \<and> outputPath_of ''2025-08-06T13:15:30.123Z'' ''octocat'' None
     \<noteq> ''octocat'' @ ''-repositories-'' @ replace_colons_dots ''2025-08-06T13:15:30.123Z'' @ ''.csv''"
  by code_simp

text \<open>
  C9, amended. When no output path is given, the output file name is
  \<open><username>-repositories-<T>.csv\<close> where \<open>T\<close> is the first 19 characters of the current
  ISO 8601 timestamp with every colon and dot replaced by a dash: for the timestamp
  \<open>YYYY-MM-DDTHH:MM:SS.mmmZ\<close> it is \<open>YYYY-MM-DDTHH-MM-SS\<close>. A successful run writes
  exactly one CSV file, at that path.
\<close>

theorem outputPath_of_default:
  assumes "falsy outputFile"
  shows "outputPath_of now username outputFile
           = username @ ''-repositories-'' @ take 19 (replace_colons_dots now) @ ''.csv''
       \<and> (length date = 10 \<and> length hh = 2 \<and> length mm = 2 \<and> length ss = 2
            \<and> (\<forall>c \<in> set (date @ hh @ mm @ ss). c \<noteq> CHR '':'' \<and> c \<noteq> CHR ''.'')
            \<and> now = date @ ''T'' @ hh @ '':'' @ mm @ '':'' @ ss @ ''.'' @ ms @ ''Z''
          \<longrightarrow> outputPath_of now username outputFile
                = username @ ''-repositories-'' @ date @ ''T'' @ hh @ ''-'' @ mm @ ''-'' @ ss @ ''.csv'')
       \<and> (\<forall>octo delay fx tr.
             run octo delay now (Some username) outputFile = Some (fx, tr, 0)
             \<longrightarrow> csv_paths_of fx = [outputPath_of now username outputFile])"
proof -
  have 1: "outputPath_of now username outputFile
           = username @ ''-repositories-'' @ take 19 (replace_colons_dots now) @ ''.csv''"
    using assms by (simp add: outputPath_of_def slice_take)
  have 2: "outputPath_of now username outputFile
                = username @ ''-repositories-'' @ date @ ''T'' @ hh @ ''-'' @ mm @ ''-'' @ ss @ ''.csv''"
    if l: "length date = 10" "length hh = 2" "length mm = 2" "length ss = 2"
      and c: "\<forall>c \<in> set (date @ hh @ mm @ ss). c \<noteq> CHR '':'' \<and> c \<noteq> CHR ''.''"
      and n: "now = date @ ''T'' @ hh @ '':'' @ mm @ '':'' @ ss @ ''.'' @ ms @ ''Z''"
  proof -
    from c have cs: "\<forall>c \<in> set date. c \<noteq> CHR '':'' \<and> c \<noteq> CHR ''.''"
      "\<forall>c \<in> set hh. c \<noteq> CHR '':'' \<and> c \<noteq> CHR ''.''"
      "\<forall>c \<in> set mm. c \<noteq> CHR '':'' \<and> c \<noteq> CHR ''.''"
      "\<forall>c \<in> set ss. c \<noteq> CHR '':'' \<and> c \<noteq> CHR ''.''"
      by auto
    note id = replace_colons_dots_id[OF cs(1)] replace_colons_dots_id[OF cs(2)]
      replace_colons_dots_id[OF cs(3)] replace_colons_dots_id[OF cs(4)]
    have "replace_colons_dots now
        = (date @ ''T'' @ hh @ ''-'' @ mm @ ''-'' @ ss) @ (''-'' @ replace_colons_dots ms @ ''Z'')"
      unfolding n by (simp add: replace_colons_dots_append replace_colons_dots_Cons id)
    moreover have "length (date @ ''T'' @ hh @ ''-'' @ mm @ ''-'' @ ss) = 19" using l by simp
    ultimately have "take 19 (replace_colons_dots now) = date @ ''T'' @ hh @ ''-'' @ mm @ ''-'' @ ss"
      by (metis append_eq_conv_conj)
    with 1 show ?thesis by simp
  qed
  from 1 2 run_success_paths show ?thesis by blast
qed

text \<open>C9, amended, at a run for \<open>octocat\<close> against the example service.\<close>

theorem outputPath_of_default_witness:
  "outputPath_of ''2025-08-06T13:15:30.123Z'' ''octocat'' None
     = ''octocat-repositories-2025-08-06T13-15-30.csv''
   \<and> (\<exists>fx tr. run example_octokit (\<lambda>k. 0) ''2025-08-06T13:15:30.123Z'' (Some ''octocat'') None
                 = Some (fx, tr, 0)
              \<and> csv_paths_of fx = [''octocat-repositories-2025-08-06T13-15-30.csv''])"
proof -
  have f: "falsy None" by simp
  have r: "\<exists>fx tr. run example_octokit (\<lambda>k. 0) ''2025-08-06T13:15:30.123Z'' (Some ''octocat'') None
                 = Some (fx, tr, 0)"
    by (rule run_succeeds[OF _ _ getUserRepos_example]) (simp_all add: example_octokit_def)
  note t = outputPath_of_default
         [OF f, of "''2025-08-06T13:15:30.123Z''" "''octocat''" "''2025-08-06''" "''13''" "''15''"
             "''30''" "''123''"]
  from t[THEN conjunct2, THEN conjunct1]
  have a: "outputPath_of ''2025-08-06T13:15:30.123Z'' ''octocat'' None
     = ''octocat-repositories-2025-08-06T13-15-30.csv''" by simp
  from r obtain fx tr where
    run: "run example_octokit (\<lambda>k. 0) ''2025-08-06T13:15:30.123Z'' (Some ''octocat'') None
            = Some (fx, tr, 0)" by blast
  from t run have "csv_paths_of fx = [outputPath_of ''2025-08-06T13:15:30.123Z'' ''octocat'' None]"
    by blast
  with a run show ?thesis by auto
qed

text \<open>
  C10. When the authenticated user can be fetched, \<^verbatim>\<open>getUserRepos\<close> sends exactly one
  listing request: the one for the authenticated user (all visibilities, owner affiliation)
  if and only if the login of the authenticated user and the requested username are equal
  after lowercasing both, and the public listing of the requested username otherwise; its
  outcome is the outcome of that request.
\<close>

theorem getUserRepos_mode_selection:
  assumes "users_getAuthenticated octo = Inr authenticatedUser"
  shows "requests_of (fst (getUserRepos octo username))
           = [GetAuthenticated,
              if toLowerCase (login authenticatedUser) = toLowerCase username
              then PaginateListForAuthenticatedUser ''all'' ''owner'' ''updated'' 100
              else PaginateListForUser username ''all'' 100]
       \<and> (Request (PaginateListForAuthenticatedUser ''all'' ''owner'' ''updated'' 100)
              \<in> set (fst (getUserRepos octo username))
            \<longleftrightarrow> toLowerCase (login authenticatedUser) = toLowerCase username)
       \<and> snd (getUserRepos octo username)
           = (if toLowerCase (login authenticatedUser) = toLowerCase username
              then paginate_listForAuthenticatedUser octo ''all'' ''owner'' ''updated'' 100
              else paginate_listForUser octo username ''all'' 100)"
proof -
  have r: "requests_of (fst (getUserRepos octo username))
           = [GetAuthenticated,
              if toLowerCase (login authenticatedUser) = toLowerCase username
              then PaginateListForAuthenticatedUser ''all'' ''owner'' ''updated'' 100
              else PaginateListForUser username ''all'' 100]"
    using assms
    by (simp add: getUserRepos_cases requests_of_catch split: sum.splits)
       (simp add: requests_of_def)
  have m: "Request c \<in> set fx \<longleftrightarrow> c \<in> set (requests_of fx)" for c fx
    by (induction fx) (auto simp: requests_of_def split: effect.splits)
  have s: "snd (getUserRepos octo username)
           = (if toLowerCase (login authenticatedUser) = toLowerCase username
              then paginate_listForAuthenticatedUser octo ''all'' ''owner'' ''updated'' 100
              else paginate_listForUser octo username ''all'' 100)"
    using assms
    by (simp add: getUserRepos_cases getUserRepos_catch_def split: sum.splits)
  from r s show ?thesis by (simp add: m)
qed

text \<open>C10 at the example service, whose login is \<open>Octocat\<close>: the username \<open>OCTOcat\<close>
  selects the own listing, the username \<open>hubot\<close> the public one.\<close>

theorem getUserRepos_mode_selection_witness:
  "requests_of (fst (getUserRepos example_octokit ''OCTOcat''))
     = [GetAuthenticated, PaginateListForAuthenticatedUser ''all'' ''owner'' ''updated'' 100]
   \<and> requests_of (fst (getUserRepos example_octokit ''hubot''))
     = [GetAuthenticated, PaginateListForUser ''hubot'' ''all'' 100]"
proof -
  have a: "users_getAuthenticated example_octokit = Inr \<lparr>login = ''Octocat''\<rparr>"
    by (simp add: example_octokit_def)
  have l: "toLowerCase ''Octocat'' = toLowerCase ''OCTOcat''"
    "toLowerCase ''Octocat'' \<noteq> toLowerCase ''hubot''"
    by code_simp+
  from getUserRepos_mode_selection[OF a, of "''OCTOcat''"]
       getUserRepos_mode_selection[OF a, of "''hubot''"] l
  show ?thesis by simp
qed

end
